theory Spec2Isabelle
  imports Complex_Main "HOL-Library.Multiset" "HOL-Library.Monad_Syntax"
begin

section \<open>JavaScript values and strings\<close>

text \<open>
  The validators receive a list whose entries are either CSV rows (objects with a
  \<^verbatim>\<open>number\<close> property holding a string) or bare strings; every variant reads an entry
  with \<^verbatim>\<open>numberObj.number || numberObj\<close>. An object is a reference, so it carries an
  identity: two rows with the same text are different members of a JavaScript \<^verbatim>\<open>Set\<close>.
\<close>

datatype jsval = Str string | Obj nat string

text \<open>JavaScript truthiness: the empty string is falsy, every object is truthy.\<close>

fun truthy :: "jsval \<Rightarrow> bool" where
  "truthy (Str s) = (s \<noteq> [])"
| "truthy (Obj i s) = True"

text \<open>\<^verbatim>\<open>numberObj.number || numberObj\<close>: a string has no \<^verbatim>\<open>number\<close> property.\<close>

fun number_of :: "jsval \<Rightarrow> jsval" where
  "number_of (Str s) = Str s"
| "number_of (Obj i s) = (if s \<noteq> [] then Str s else Obj i s)"

text \<open>
  A call of the transport (\<^verbatim>\<open>isRegisteredUser\<close>, \<^verbatim>\<open>getProfilePicUrl\<close>, \<^verbatim>\<open>getContactById\<close>)
  either resolves with a value or rejects with an \<^verbatim>\<open>Error\<close>, of which the code reads the
  \<^verbatim>\<open>message\<close> only.
\<close>

datatype 'a reply = Resolves 'a | Rejects string

text \<open>
  The result objects of the four validators share their properties; a property that a
  variant does not set is \<open>None\<close>. The wall-clock stamp \<^verbatim>\<open>checked_at\<close> is left out.
\<close>

record result =
  number :: jsval
  whatsapp_id :: string
  is_registered :: bool
  has_profile_pic :: "bool option"
  about :: "string option"
  status :: string
  error :: "string option"
  session_id :: "nat option"

text \<open>
  A session object, with the counters of all variants (\<^verbatim>\<open>id\<close> is written \<open>id_s\<close>). Times
  are readings of \<^verbatim>\<open>Date.now()\<close>, in milliseconds.
\<close>

record session =
  id_s :: nat
  checked :: nat
  verified :: nat
  errors :: nat
  lastError :: "string option"
  lastCheckTime :: int
  totalChecksThisHour :: nat
  hourStartTime :: int

section \<open>Normalization of a raw number\<close>

text \<open>The class \<^verbatim>\<open>\d\<close> of a JavaScript regular expression: the ten ASCII digits.\<close>

definition isDigit :: "char \<Rightarrow> bool" where
  "isDigit c = (c \<in> set ''0123456789'')"

text \<open>\<^verbatim>\<open>number.replace(/[^\d]/g, '')\<close>\<close>

definition stripNonDigits :: "string \<Rightarrow> string" where
  "stripNonDigits num = filter isDigit num"

text \<open>\<^verbatim>\<open>s.startsWith(p)\<close> and \<^verbatim>\<open>s.substring(1)\<close> (the empty string stays empty).\<close>

definition startsWith :: "string \<Rightarrow> string \<Rightarrow> bool" where
  "startsWith s p = (take (length p) s = p)"

definition substring1 :: "string \<Rightarrow> string" where
  "substring1 s = drop 1 s"

text \<open>
  The identifier computed in \<^verbatim>\<open>OptimizedWhatsAppValidator.processNumber\<close>,
  \<^verbatim>\<open>SafeWhatsAppValidator.validateNumber\<close>, \<^verbatim>\<open>WhatsAppValidator.validateNumber\<close> and
  \<^verbatim>\<open>MultiWhatsAppValidator.validateNumber\<close>: each class has its own copy of the two lines.
\<close>

definition whatsappId_optimized :: "string \<Rightarrow> string" where
  "whatsappId_optimized num =
     (let formattedNumber = stripNonDigits num
      in if startsWith formattedNumber ''962''
         then formattedNumber @ ''@c.us''
         else ''962'' @ substring1 formattedNumber @ ''@c.us'')"

definition whatsappId_safe :: "string \<Rightarrow> string" where
  "whatsappId_safe num =
     (let formattedNumber = stripNonDigits num
      in if startsWith formattedNumber ''962''
         then formattedNumber @ ''@c.us''
         else ''962'' @ substring1 formattedNumber @ ''@c.us'')"

definition whatsappId_basic :: "string \<Rightarrow> string" where
  "whatsappId_basic num =
     (let formattedNumber = stripNonDigits num
      in if startsWith formattedNumber ''962''
         then formattedNumber @ ''@c.us''
         else ''962'' @ substring1 formattedNumber @ ''@c.us'')"

definition whatsappId_multi :: "string \<Rightarrow> string" where
  "whatsappId_multi num =
     (let formattedNumber = stripNonDigits num
      in if startsWith formattedNumber ''962''
         then formattedNumber @ ''@c.us''
         else ''962'' @ substring1 formattedNumber @ ''@c.us'')"

text \<open>
  The rule in the specification's words: strip all non-digit characters; if the remaining
  digits already start with the country prefix 962, use them as they are; otherwise drop
  the leading digit and prepend 962.
\<close>

fun dropLeadingDigit :: "string \<Rightarrow> string" where
  "dropLeadingDigit [] = []"
| "dropLeadingDigit (d # ds) = ds"

fun hasCountryPrefix :: "string \<Rightarrow> bool" where
  "hasCountryPrefix (a # b # c # ds) = (a = CHR ''9'' \<and> b = CHR ''6'' \<and> c = CHR ''2'')"
| "hasCountryPrefix ds = False"

definition normalize_spec :: "string \<Rightarrow> string" where
  "normalize_spec x =
     (let digits = [c \<leftarrow> x. isDigit c]
      in if hasCountryPrefix digits then digits else ''962'' @ dropLeadingDigit digits)"

section \<open>The per-number check of the sequential validators\<close>

text \<open>\<^verbatim>\<open>message.toLowerCase()\<close> on ASCII letters, and \<^verbatim>\<open>s.includes(p)\<close> (\<open>includes\<close> is a keyword).\<close>

definition toLowerCase :: "string \<Rightarrow> string" where
  "toLowerCase s =
     map (\<lambda>c. case map_of (zip ''ABCDEFGHIJKLMNOPQRSTUVWXYZ'' ''abcdefghijklmnopqrstuvwxyz'') c of
                 Some l \<Rightarrow> l | None \<Rightarrow> c) s"

fun includes_str :: "string \<Rightarrow> string \<Rightarrow> bool" where
  "includes_str [] p = (p = [])"
| "includes_str (c # cs) p = (startsWith (c # cs) p \<or> includes_str cs p)"

text \<open>
  The test of \<^verbatim>\<open>SafeWhatsAppValidator.validateNumber\<close>:
  \<^verbatim>\<open>error.message && (error.message.toLowerCase().includes('ban') || ...includes('block'))\<close>.
\<close>

definition isBanSignal :: "string \<Rightarrow> bool" where
  "isBanSignal message =
     (message \<noteq> [] \<and> (includes_str (toLowerCase message) ''ban'' \<or> includes_str (toLowerCase message) ''block''))"

text \<open>
  What a \<^verbatim>\<open>try\<close> block throws when \<^verbatim>\<open>number\<close> is an object (a row whose \<^verbatim>\<open>number\<close>
  property is empty): \<^verbatim>\<open>number.replace\<close> is undefined, and calling it is a TypeError.
\<close>

definition replaceTypeError :: string where
  "replaceTypeError = ''number.replace is not a function''"

text \<open>
  \<^verbatim>\<open>MultiWhatsAppValidator.validateNumber(session, number)\<close>. The arguments \<open>check\<close> and
  \<open>pic\<close> are the replies of \<^verbatim>\<open>isRegisteredUser\<close> and \<^verbatim>\<open>getProfilePicUrl\<close> (whose
  value may be undefined, \<open>None\<close>). The value is what the call returns, \<open>Inr\<close>, or throws,
  \<open>Inl\<close>, with the updated session.
\<close>

definition validateNumber_multi ::
  "session \<Rightarrow> jsval \<Rightarrow> bool reply \<Rightarrow> string option reply \<Rightarrow> (string + result) \<times> session" where
  "validateNumber_multi session num check pic =
     (let tried =
        (case num of
           Obj i x \<Rightarrow> Inl replaceTypeError
         | Str n \<Rightarrow>
            (case check of
               Rejects message \<Rightarrow> Inl message
             | Resolves isRegistered \<Rightarrow>
                 (let profilePic =
                    (if isRegistered
                     then (case pic of Resolves (Some picUrl) \<Rightarrow> picUrl \<noteq> [] | Resolves None \<Rightarrow> False
                           | Rejects m \<Rightarrow> False)
                     else False)
                  in Inr \<lparr>number = num, whatsapp_id = whatsappId_multi n, is_registered = isRegistered,
                          has_profile_pic = Some profilePic, about = None, status = ''success'',
                          error = None, session_id = Some (id_s session)\<rparr>)))
      in case tried of
           Inr r \<Rightarrow> (Inr r, session)
         | Inl message \<Rightarrow>
             (Inr \<lparr>number = num, whatsapp_id = [], is_registered = False,
                   has_profile_pic = Some False, about = None, status = ''error'',
                   error = Some message, session_id = Some (id_s session)\<rparr>,
              session\<lparr>errors := errors session + 1\<rparr>))"

text \<open>
  \<^verbatim>\<open>SafeWhatsAppValidator.validateNumber(session, number)\<close>. Besides the reply of
  \<^verbatim>\<open>isRegisteredUser\<close> it depends on the reading \<open>now\<close> of the clock, on the set
  \<^verbatim>\<open>verifiedNumbers\<close> and on \<open>write\<close>, the outcome of appending to the master file
  inside \<^verbatim>\<open>appendVerifiedNumberImmediately\<close> when that is attempted (\<open>Some message\<close>: the
  write throws). The third component tells whether the "may be banned" line was printed
  with \<^verbatim>\<open>console.error\<close>.
\<close>

definition validateNumber_safe ::
  "int \<Rightarrow> jsval set \<Rightarrow> session \<Rightarrow> jsval \<Rightarrow> bool reply \<Rightarrow> string option
     \<Rightarrow> (string + result) \<times> session \<times> bool \<times> jsval set" where
  "validateNumber_safe now verifiedNumbers session num check write =
     (let (tried, session1, verifiedNumbers1) =
        (case num of
           Obj i x \<Rightarrow> (Inl replaceTypeError, session, verifiedNumbers)
         | Str n \<Rightarrow>
            (case check of
               Rejects message \<Rightarrow> (Inl message, session, verifiedNumbers)
             | Resolves isRegistered \<Rightarrow>
                 (let session' = session\<lparr>lastCheckTime := now\<rparr>;
                      r = \<lparr>number = num, whatsapp_id = whatsappId_safe n, is_registered = isRegistered,
                           has_profile_pic = None, about = None, status = ''success'',
                           error = None, session_id = Some (id_s session)\<rparr>
                  in if isRegistered \<and> num \<notin> verifiedNumbers
                     then (case write of
                             Some message \<Rightarrow> (Inl message, session', verifiedNumbers)
                           | None \<Rightarrow> (Inr r, session', insert num verifiedNumbers))
                     else (Inr r, session', verifiedNumbers))))
      in case tried of
           Inr r \<Rightarrow> (Inr r, session1, False, verifiedNumbers1)
         | Inl message \<Rightarrow>
             (let session2 = session1\<lparr>errors := errors session1 + 1\<rparr>
              in if isBanSignal message
                 then (Inl message, session2, True, verifiedNumbers1)
                 else (Inr \<lparr>number = num, whatsapp_id = [], is_registered = False,
                            has_profile_pic = None, about = None, status = ''error'',
                            error = Some message, session_id = Some (id_s session)\<rparr>,
                       session2, False, verifiedNumbers1)))"

section \<open>The rate limiter of the safe validator\<close>

text \<open>
  \<^verbatim>\<open>SafeWhatsAppValidator.checkRateLimit(session)\<close>. \<open>now\<close> is the reading of the clock on
  entry and \<open>resumed\<close> the reading after the pause, when there is one. The first
  component is the pause taken (\<open>None\<close>: no pause), in milliseconds.
\<close>

definition checkRateLimit :: "nat \<Rightarrow> int \<Rightarrow> int \<Rightarrow> session \<Rightarrow> int option \<times> session" where
  "checkRateLimit maxChecksPerHour now resumed session =
     (let hourElapsed = now - hourStartTime session;
          session1 = (if hourElapsed > 3600000
                      then session\<lparr>totalChecksThisHour := 0, hourStartTime := now\<rparr>
                      else session);
          (waitTime, session2) =
            (if totalChecksThisHour session1 \<ge> maxChecksPerHour
             then (Some (3600000 - hourElapsed),
                   session1\<lparr>totalChecksThisHour := 0, hourStartTime := resumed\<rparr>)
             else (None, session1))
      in (waitTime, session2\<lparr>totalChecksThisHour := totalChecksThisHour session2 + 1\<rparr>))"

text \<open>
  A session driven through a sequence of check attempts, each given by its two clock
  readings. \<open>admitted\<close> lists the times at which the attempts were let through to the
  check (the reading on entry, or the reading after the pause), \<open>limited\<close> is the session
  at the end.
\<close>

fun admitted :: "nat \<Rightarrow> session \<Rightarrow> (int \<times> int) list \<Rightarrow> int list" where
  "admitted maxChecksPerHour session [] = []"
| "admitted maxChecksPerHour session ((now, resumed) # attempts) =
     (case checkRateLimit maxChecksPerHour now resumed session of
        (waitTime, session') \<Rightarrow>
          (if waitTime = None then now else resumed) # admitted maxChecksPerHour session' attempts)"

fun limited :: "nat \<Rightarrow> session \<Rightarrow> (int \<times> int) list \<Rightarrow> session" where
  "limited maxChecksPerHour session [] = session"
| "limited maxChecksPerHour session ((now, resumed) # attempts) =
     limited maxChecksPerHour (snd (checkRateLimit maxChecksPerHour now resumed session)) attempts"

text \<open>The number of checks let through in the interval of one hour that starts at \<open>t\<close>.\<close>

definition checksInHourFrom :: "int \<Rightarrow> int list \<Rightarrow> nat" where
  "checksInHourFrom t checkTimes = length [c \<leftarrow> checkTimes. t \<le> c \<and> c < t + 3600000]"

text \<open>A session as \<^verbatim>\<open>initializeSession\<close> creates it at time \<open>now\<close>.\<close>

definition newSession :: "nat \<Rightarrow> int \<Rightarrow> session" where
  "newSession index now =
     \<lparr>id_s = index, checked = 0, verified = 0, errors = 0, lastError = None,
      lastCheckTime = now, totalChecksThisHour = 0, hourStartTime = now\<rparr>"

section \<open>JavaScript numbers\<close>

text \<open>
  A JavaScript number is an IEEE 754 double. Where the code computes with fractions, a
  finite number is modelled by the real it denotes, and an arithmetic operation by the
  operation on reals followed by the rounding to the nearest double, ties to the even
  significand. \<open>None\<close> stands for a result that is not finite (\<^verbatim>\<open>Infinity\<close> or \<^verbatim>\<open>NaN\<close>):
  a sum or product with such an operand is not finite either. The sign of zero is not
  modelled.
\<close>

text \<open>The power of two with exponent \<open>e\<close>.\<close>

definition pow2 :: "int \<Rightarrow> real" where
  "pow2 e = (if 0 \<le> e then 2 ^ nat e else 1 / 2 ^ nat (- e))"

text \<open>The integer nearest to \<open>q\<close>; of two that are equally near, the even one.\<close>

definition roundTiesToEven :: "real \<Rightarrow> int" where
  "roundTiesToEven q =
     (let f = \<lfloor>q\<rfloor>; d = q - of_int f
      in if d < 1 / 2 then f else if 1 / 2 < d then f + 1 else if even f then f else f + 1)"

text \<open>
  The exponent of a magnitude \<open>a\<close>: the \<open>e\<close> with \<open>pow2 e \<le> a < pow2 (e + 1)\<close>, found by
  halving or doubling \<open>a\<close>. It stays at -1022 for the subnormal numbers and zero, which
  are spaced like the numbers of that exponent, and at 1024 from \<open>pow2 1024\<close> on, where no
  double is left.
\<close>

fun exponentUp :: "nat \<Rightarrow> real \<Rightarrow> nat" where
  "exponentUp 0 x = 0"
| "exponentUp (Suc n) x = (if 2 \<le> x then Suc (exponentUp n (x / 2)) else 0)"

fun exponentDown :: "nat \<Rightarrow> real \<Rightarrow> nat" where
  "exponentDown 0 x = 0"
| "exponentDown (Suc n) x = (if x < 1 then Suc (exponentDown n (2 * x)) else 0)"

definition exponent :: "real \<Rightarrow> int" where
  "exponent a = (if 1 \<le> a then int (exponentUp 1024 a) else - int (exponentDown 1022 a))"

text \<open>
  The doubles of exponent \<open>e\<close> are the multiples of \<open>pow2 (e - 52)\<close>: a magnitude is rounded
  to the nearest of them. A real is rounded with its sign; when the rounding reaches
  \<open>pow2 1024\<close> the result is \<^verbatim>\<open>Infinity\<close>.
\<close>

definition roundMagnitude :: "real \<Rightarrow> real" where
  "roundMagnitude a =
     (let ulp = pow2 (exponent a - 52) in ulp * of_int (roundTiesToEven (a / ulp)))"

definition roundToDouble :: "real \<Rightarrow> real option" where
  "roundToDouble x =
     (let m = roundMagnitude \<bar>x\<bar>
      in if m < 2 ^ 1024 then Some (if x < 0 then - m else m) else None)"

text \<open>
  The reals that are doubles, and those that \<^verbatim>\<open>Math.random()\<close> can return: a double that
  is at least 0 and less than 1.
\<close>

definition isDouble :: "real \<Rightarrow> bool" where
  "isDouble x = (roundToDouble x = Some x)"

definition isRandom :: "real \<Rightarrow> bool" where
  "isRandom r = (isDouble r \<and> 0 \<le> r \<and> r < 1)"

section \<open>The pauses of the safe validator\<close>

text \<open>\<^verbatim>\<open>processed % batchSize === 0\<close>: a remainder by zero is \<^verbatim>\<open>NaN\<close>, which equals nothing.\<close>

definition isMultiple :: "nat \<Rightarrow> nat \<Rightarrow> bool" where
  "isMultiple processed batchSize = (batchSize \<noteq> 0 \<and> processed mod batchSize = 0)"

text \<open>
  \<^verbatim>\<open>checkDelay * (0.8 + Math.random() * 0.4)\<close> and \<^verbatim>\<open>breakDuration + Math.random() * 2000\<close>,
  as functions of the value that \<^verbatim>\<open>Math.random()\<close> returns. The literals \<^verbatim>\<open>0.8\<close> and \<^verbatim>\<open>0.4\<close>
  denote the doubles nearest to them (2000 is a double), and each operation rounds.
\<close>

definition delayVariation :: "real \<Rightarrow> real \<Rightarrow> real option" where
  "delayVariation checkDelay random =
     do { c08 \<leftarrow> roundToDouble 0.8;
          c04 \<leftarrow> roundToDouble 0.4;
          jitter \<leftarrow> roundToDouble (random * c04);
          factor \<leftarrow> roundToDouble (c08 + jitter);
          roundToDouble (checkDelay * factor) }"

definition breakTime :: "real \<Rightarrow> real \<Rightarrow> real option" where
  "breakTime breakDuration random =
     do { extra \<leftarrow> roundToDouble (random * 2000);
          roundToDouble (breakDuration + extra) }"

text \<open>
  The pauses that one iteration of the loop of
  \<^verbatim>\<open>SafeWhatsAppValidator.validateSessionChunk\<close> awaits after its check, in order: the
  arguments of its calls of \<^verbatim>\<open>this.delay\<close>, in milliseconds. \<open>len\<close> is \<^verbatim>\<open>numbers.length\<close>,
  \<open>i\<close> the loop index, \<open>processed\<close> the counter after its increment, \<open>draws\<close> the two values
  of \<^verbatim>\<open>Math.random()\<close>. (The pause of the rate limiter before the check is
  \<open>checkRateLimit\<close>.)
\<close>

definition pausesAfterCheck ::
  "real \<Rightarrow> nat \<Rightarrow> real \<Rightarrow> nat \<Rightarrow> nat \<Rightarrow> nat \<Rightarrow> real \<times> real \<Rightarrow> real option list" where
  "pausesAfterCheck checkDelay batchSize breakDuration len i processed draws =
     (if i < len - 1 then [delayVariation checkDelay (fst draws)] else [])
     @ (if isMultiple processed batchSize \<and> i < len - 1 then [breakTime breakDuration (snd draws)] else [])
     @ (if isMultiple processed 200 \<and> i < len - 1 then [Some 10000] else [])"

text \<open>The loop itself: one list of pauses for each number of the chunk.\<close>

fun validateSessionChunk_pauses ::
  "real \<Rightarrow> nat \<Rightarrow> real \<Rightarrow> nat \<Rightarrow> nat \<Rightarrow> nat \<Rightarrow> (real \<times> real) list \<Rightarrow> real option list list" where
  "validateSessionChunk_pauses checkDelay batchSize breakDuration len i processed [] = []"
| "validateSessionChunk_pauses checkDelay batchSize breakDuration len i processed (draws # rest) =
     pausesAfterCheck checkDelay batchSize breakDuration len i (processed + 1) draws
       # validateSessionChunk_pauses checkDelay batchSize breakDuration len (i + 1) (processed + 1) rest"

section \<open>Waiting for a session to become ready\<close>

text \<open>
  \<^verbatim>\<open>WhatsAppValidator.waitForReady\<close> looks at the flag \<^verbatim>\<open>isReady\<close> every 1000 ms, at the
  ticks of \<^verbatim>\<open>setInterval\<close>, and resolves at the first tick that finds it set. The flag is
  set and cleared by events of the client, so the environment is the function that
  gives the flag at each tick. The value is the number of the tick at which the promise
  resolves; \<open>None\<close> is a promise that never resolves.
\<close>

partial_function (option) waitForReady :: "(nat \<Rightarrow> bool) \<Rightarrow> nat \<Rightarrow> nat option" where
  "waitForReady isReady tick =
     (if isReady tick then Some tick else waitForReady isReady (tick + 1))"

text \<open>
  The loop \<^verbatim>\<open>while (!session.ready) { await this.delay(1000); }\<close> of
  \<^verbatim>\<open>SafeWhatsAppValidator.initializeSession\<close> (the other multi-session validators have
  the same loop): \<open>ready\<close> gives the flag at each test, the value is the number of
  delays awaited.
\<close>

partial_function (option) initializeSession_wait :: "(nat \<Rightarrow> bool) \<Rightarrow> nat \<Rightarrow> nat option" where
  "initializeSession_wait ready delays =
     (if \<not> ready delays then initializeSession_wait ready (delays + 1) else Some delays)"

text \<open>A session that never becomes ready (the QR code is never scanned).\<close>

definition neverReady :: "nat \<Rightarrow> bool" where
  "neverReady tick = False"

section \<open>The single-session validator: checkpoints and resumption\<close>

text \<open>
  The replies of \<^verbatim>\<open>isRegisteredUser\<close>, \<^verbatim>\<open>getProfilePicUrl\<close> and \<^verbatim>\<open>getContactById\<close> (of
  which the code reads \<^verbatim>\<open>about\<close>) to one call of \<^verbatim>\<open>WhatsAppValidator.validateNumber\<close>,
  which catches every error.
\<close>

type_synonym replies = "bool reply \<times> string option reply \<times> string option reply"

definition validateNumber_basic :: "jsval \<Rightarrow> replies \<Rightarrow> result" where
  "validateNumber_basic num transport =
     (let (check, pic, contact) = transport;
          tried =
            (case num of
               Obj i x \<Rightarrow> Inl replaceTypeError
             | Str n \<Rightarrow>
                (case check of
                   Rejects message \<Rightarrow> Inl message
                 | Resolves isRegistered \<Rightarrow>
                     (let profilePic =
                        (if isRegistered
                         then (case pic of Resolves (Some picUrl) \<Rightarrow> picUrl \<noteq> [] | Resolves None \<Rightarrow> False
                               | Rejects m \<Rightarrow> False)
                         else False);
                          aboutText =
                        (if isRegistered
                         then (case contact of Resolves (Some a) \<Rightarrow> a | Resolves None \<Rightarrow> []
                               | Rejects m \<Rightarrow> [])
                         else [])
                      in Inr \<lparr>number = num, whatsapp_id = whatsappId_basic n, is_registered = isRegistered,
                              has_profile_pic = Some profilePic, about = Some aboutText,
                              status = ''success'', error = None, session_id = None\<rparr>)))
      in case tried of
           Inr r \<Rightarrow> r
         | Inl message \<Rightarrow>
             \<lparr>number = num, whatsapp_id = [], is_registered = False, has_profile_pic = Some False,
              about = Some [], status = ''error'', error = Some message, session_id = None\<rparr>)"

text \<open>
  The checkpoint, the file it is persisted to (\<open>None\<close>: no file, or one that does not
  parse), and the result file \<^verbatim>\<open>validated_numbers.csv\<close> as the list of records appended
  to it.
\<close>

record progress =
  lastIndex :: nat
  totalChecked :: nat
  startTime :: string

text \<open>
  What \<^verbatim>\<open>validateBatch\<close> does to the outside, in the order in which it does it: the call
  of \<^verbatim>\<open>validateNumber\<close> for \<^verbatim>\<open>numbers[i]\<close>, the write of the checkpoint to the progress
  file, and the append of records to the result file.
\<close>

datatype effect = Checked nat | Persisted progress | Appended "result list"

record basicValidator =
  progress :: progress
  progressFile :: "progress option"
  validated_numbers :: "result list"
  trace :: "effect list"

text \<open>\<^verbatim>\<open>loadProgress\<close>, \<^verbatim>\<open>saveProgress\<close>, \<^verbatim>\<open>saveResults(results, true)\<close> and \<^verbatim>\<open>slice(-n)\<close>.\<close>

definition loadProgress :: "progress option \<Rightarrow> string \<Rightarrow> progress" where
  "loadProgress stored now =
     (case stored of Some saved \<Rightarrow> saved
      | None \<Rightarrow> \<lparr>lastIndex = 0, totalChecked = 0, startTime = now\<rparr>)"

definition saveProgress :: "basicValidator \<Rightarrow> basicValidator" where
  "saveProgress v =
     v\<lparr>progressFile := Some (progress v), trace := trace v @ [Persisted (progress v)]\<rparr>"

definition saveResults_append :: "result list \<Rightarrow> basicValidator \<Rightarrow> basicValidator" where
  "saveResults_append rs v =
     v\<lparr>validated_numbers := validated_numbers v @ rs, trace := trace v @ [Appended rs]\<rparr>"

definition sliceLast :: "nat \<Rightarrow> 'a list \<Rightarrow> 'a list" where
  "sliceLast n xs = drop (length xs - n) xs"

text \<open>
  The loop of \<^verbatim>\<open>WhatsAppValidator.validateBatch(numbers, startIndex)\<close>, without its pauses:
  \<open>transport i\<close> are the replies to the check of \<^verbatim>\<open>numbers[i]\<close>, \<open>out\<close> is the array
  \<^verbatim>\<open>results\<close>. \<open>afterCheck\<close> is the rest of the loop body after the check: the progress
  update and, when \<^verbatim>\<open>(i + 1) % 10 === 0\<close>, the checkpoint.
\<close>

definition afterCheck :: "nat \<Rightarrow> result list \<Rightarrow> basicValidator \<Rightarrow> basicValidator" where
  "afterCheck i out' v =
     (let v1 = v\<lparr>progress := (progress v)\<lparr>lastIndex := i + 1,
                                                 totalChecked := totalChecked (progress v) + 1\<rparr>\<rparr>
      in if (i + 1) mod 10 = 0
         then saveResults_append (sliceLast 10 out') (saveProgress v1)
         else v1)"

function validateBatch_loop ::
  "jsval list \<Rightarrow> (nat \<Rightarrow> replies) \<Rightarrow> nat \<Rightarrow> result list \<Rightarrow> basicValidator
     \<Rightarrow> result list \<times> basicValidator" where
  "validateBatch_loop numbers transport i out v =
     (if i < length numbers
      then (let r = validateNumber_basic (number_of (numbers ! i)) (transport i);
                out' = out @ [r]
            in validateBatch_loop numbers transport (i + 1) out'
                 (afterCheck i out' (v\<lparr>trace := trace v @ [Checked i]\<rparr>)))
      else (out, v))"
  by pat_completeness auto
termination
  by (relation "measure (\<lambda>(numbers, transport, i, out, v). length numbers - i)") auto

definition validateBatch ::
  "jsval list \<Rightarrow> nat \<Rightarrow> (nat \<Rightarrow> replies) \<Rightarrow> basicValidator \<Rightarrow> result list \<times> basicValidator" where
  "validateBatch numbers startIndex transport v = validateBatch_loop numbers transport startIndex [] v"

text \<open>
  The calls of the iteration for index \<open>i\<close> in a run that started at index \<open>k\<close> with
  \<open>c0\<close> numbers counted and the start time \<open>st\<close>, in closed form.
\<close>

definition effectsOf ::
  "jsval list \<Rightarrow> (nat \<Rightarrow> replies) \<Rightarrow> nat \<Rightarrow> nat \<Rightarrow> string \<Rightarrow> nat \<Rightarrow> effect list" where
  "effectsOf numbers transport k c0 st i =
     Checked i
     # (if (i + 1) mod 10 = 0
        then [Persisted \<lparr>lastIndex = i + 1, totalChecked = c0 + (i + 1 - k), startTime = st\<rparr>,
              Appended (map (\<lambda>j. validateNumber_basic (number_of (numbers ! j)) (transport j))
                          [max k (i + 1 - 10)..<i + 1])]
        else [])"

text \<open>
  \<^verbatim>\<open>generateReport\<close>: the counts of its summary and of its carrier breakdown. The breakdown
  calls \<^verbatim>\<open>r.number.startsWith\<close> on every result: when the \<^verbatim>\<open>number\<close> of a result is a
  row object (a row whose \<^verbatim>\<open>number\<close> property is empty) it throws a \<^verbatim>\<open>TypeError\<close>, and no
  report is produced.
\<close>

record report =
  total_checked :: nat
  registered_on_whatsapp :: nat
  with_profile_picture :: nat
  report_errors :: nat
  carrier_077 :: nat
  carrier_078 :: nat
  carrier_079 :: nat

fun isString :: "jsval \<Rightarrow> bool" where
  "isString (Str s) = True"
| "isString (Obj i s) = False"

fun number_startsWith :: "string \<Rightarrow> jsval \<Rightarrow> bool" where
  "number_startsWith p (Str s) = startsWith s p"
| "number_startsWith p (Obj i s) = False"

definition generateReport :: "result list \<Rightarrow> string + report" where
  "generateReport rs =
     (if list_all (\<lambda>r. isString (number r)) rs
      then Inr \<lparr>total_checked = length rs,
                registered_on_whatsapp = length (filter is_registered rs),
                with_profile_picture = length (filter (\<lambda>r. has_profile_pic r = Some True) rs),
                report_errors = length (filter (\<lambda>r. status r = ''error'') rs),
                carrier_077 = length (filter (\<lambda>r. number_startsWith ''077'' (number r)) rs),
                carrier_078 = length (filter (\<lambda>r. number_startsWith ''078'' (number r)) rs),
                carrier_079 = length (filter (\<lambda>r. number_startsWith ''079'' (number r)) rs)\<rparr>
      else Inl ''TypeError: r.number.startsWith is not a function'')"

section \<open>The safe validator as a transition system\<close>

text \<open>
  The multi-session validators keep their sessions and the shared array of results in
  the same two properties.
\<close>

record validatorBase =
  whatsappSessions :: "session list"
  results :: "result list"

text \<open>
  \<^verbatim>\<open>distributeWork(array, chunks)\<close>: \<^verbatim>\<open>chunkSize\<close> is \<^verbatim>\<open>Math.ceil(array.length / chunks)\<close>
  and chunk \<open>i\<close> is \<^verbatim>\<open>array.slice(start, end)\<close>. With no chunk the loop does not run.
\<close>

definition distributeWork :: "'a list \<Rightarrow> nat \<Rightarrow> 'a list list" where
  "distributeWork array chunkCount =
     (if chunkCount = 0 then []
      else (let chunkSize = (length array + chunkCount - 1) div chunkCount
            in map (\<lambda>i. let start = i * chunkSize;
                             end' = min (start + chunkSize) (length array)
                         in take (end' - start) (drop start array))
                 [0..<chunkCount]))"

text \<open>
  \<^verbatim>\<open>SafeWhatsAppValidator.validateBatch\<close> starts one call of \<^verbatim>\<open>validateSessionChunk\<close>
  for each session whose chunk is not empty and awaits them with \<^verbatim>\<open>Promise.all\<close>. Each
  call is a sequential loop over its chunk; the calls interleave at their awaits. The
  state of a call is \<open>Checking i\<close> while the check of the number at index \<open>i\<close> of its
  chunk is ahead or in flight, \<open>Completed\<close> when the loop has returned, \<open>Threw\<close> when an
  error has left it, and \<open>Idle\<close> for a session that got no call. \<open>batch\<close> is the promise
  of \<^verbatim>\<open>validateBatch\<close>: as \<^verbatim>\<open>Promise.all\<close> does, it rejects with the first error thrown by
  a call and resolves when every call has returned. \<open>banWarnings\<close> lists the session
  numbers printed by \<^verbatim>\<open>console.error\<close> in the "may be banned" line. The pauses (rate
  limiter, delays, breaks) only delay the checks and are left out here.
\<close>

datatype driver = Idle | Checking nat | Completed | Threw string

datatype batch = Pending | Resolved "result list" | Rejected string

record safeValidator = validatorBase +
  chunks :: "jsval list list"
  drivers :: "driver list"
  verifiedNumbers :: "jsval set"
  banWarnings :: "nat list"
  batch :: batch

text \<open>The state when \<^verbatim>\<open>validateBatch(numbers)\<close> has started its calls.\<close>

definition validateBatch_safe :: "session list \<Rightarrow> jsval set \<Rightarrow> jsval list \<Rightarrow> safeValidator" where
  "validateBatch_safe sessions known numbers =
     (let cs = distributeWork numbers (length sessions);
          ds = map (\<lambda>c. if c \<noteq> [] then Checking 0 else Idle) cs
      in \<lparr>whatsappSessions = sessions, results = [], chunks = cs, drivers = ds,
          verifiedNumbers = known, banWarnings = [],
          batch = (if list_all (\<lambda>d. d = Idle) ds then Resolved [] else Pending)\<rparr>)"

text \<open>
  One transition: the call of \<^verbatim>\<open>validateNumber\<close> of session \<open>s\<close> settles, with the reading
  of the clock, the reply of the check and the outcome of the write to the master file;
  the loop of that session runs on to its next check. \<open>None\<close>: session \<open>s\<close> has no check
  in flight.
\<close>

datatype settle = Settle nat int "bool reply" "string option"

definition settled_all :: "driver list \<Rightarrow> bool" where
  "settled_all ds = list_all (\<lambda>d. d = Idle \<or> d = Completed) ds"

fun step_safe :: "safeValidator \<Rightarrow> settle \<Rightarrow> safeValidator option" where
  "step_safe v (Settle s now check write) =
     (if s < length (drivers v) then
        (case drivers v ! s of
           Checking i \<Rightarrow>
             (case validateNumber_safe now (verifiedNumbers v) (whatsappSessions v ! s)
                     (number_of (chunks v ! s ! i)) check write of
                (Inl message, session', warned, known') \<Rightarrow>
                  Some (v\<lparr>whatsappSessions := (whatsappSessions v)[s := session'],
                          verifiedNumbers := known',
                          banWarnings := banWarnings v @ [id_s session' + 1],
                          drivers := (drivers v)[s := Threw message],
                          batch := (if batch v = Pending then Rejected message else batch v)\<rparr>)
              | (Inr r, session', warned, known') \<Rightarrow>
                  (let session'' = session'\<lparr>checked := checked session' + 1,
                                           verified := (if is_registered r then verified session' + 1
                                                        else verified session')\<rparr>;
                       results' = results v @ [r];
                       drivers' = (drivers v)[s := (if i + 1 < length (chunks v ! s)
                                                    then Checking (i + 1) else Completed)]
                   in Some (v\<lparr>whatsappSessions := (whatsappSessions v)[s := session''],
                             results := results',
                             verifiedNumbers := known',
                             drivers := drivers',
                             batch := (if batch v = Pending \<and> settled_all drivers'
                                       then Resolved results' else batch v)\<rparr>)))
         | _ \<Rightarrow> None)
      else None)"

fun run_safe :: "safeValidator \<Rightarrow> settle list \<Rightarrow> safeValidator option" where
  "run_safe v [] = Some v"
| "run_safe v (e # es) = (case step_safe v e of None \<Rightarrow> None | Some v' \<Rightarrow> run_safe v' es)"

section \<open>The optimized validator as a transition system\<close>

text \<open>
  \<^verbatim>\<open>OptimizedWhatsAppValidator.validateBatch\<close> copies the numbers into \<^verbatim>\<open>workQueue\<close> and
  starts one \<^verbatim>\<open>sessionWorker\<close> for each session; a worker keeps up to
  \<^verbatim>\<open>concurrentPerSession\<close> calls of \<^verbatim>\<open>processNumber\<close> in flight. JavaScript runs the code
  between two awaits without interruption, so the run is a sequence of such segments,
  each resumed by an event: a check settles, a retry delay fires, a worker goes on.

  A call of \<^verbatim>\<open>processNumber\<close> is a promise. Its state is the session that owns it, its
  argument, the local \<^verbatim>\<open>retries\<close> and the await at which it stands: the check of the
  given identifier, the retry delay (in ms), or settled, with the result it returned
  (\<open>None\<close>: it returned \<^verbatim>\<open>undefined\<close>). \<open>checks\<close> records the replies that its calls of
  \<^verbatim>\<open>isRegisteredUser\<close> have received so far.
\<close>

datatype phase = AwaitCheck string | AwaitDelay nat | Settled "result option"

record task =
  owner :: nat
  numberObj :: jsval
  retries :: nat
  phase :: phase
  checks :: "bool reply list"

text \<open>
  A running \<^verbatim>\<open>sessionWorker\<close> is its local array \<^verbatim>\<open>concurrentTasks\<close> (promises, as indices
  into \<open>tasks\<close>) and the point at which it stands: the head of the outer loop, the await
  of \<^verbatim>\<open>Promise.race\<close>, the removal loop about to examine the index below \<open>n\<close>, the
  \<^verbatim>\<open>delay(100)\<close>, the \<^verbatim>\<open>delay(10)\<close>, the final \<^verbatim>\<open>Promise.all\<close>, or returned. Worker \<open>w\<close>
  drives \<^verbatim>\<open>whatsappSessions[w]\<close>.
\<close>

datatype pc = LoopHead | AwaitRace | Removing nat | AwaitIdle | AwaitThrottle | FinalWait | Returned

record worker =
  concurrentTasks :: "nat list"
  pc :: pc

text \<open>
  The validator: the options read by the scheduler, the queue, the results (in
  \<open>validatorBase\<close>), the \<^verbatim>\<open>Set\<close> \<^verbatim>\<open>processing\<close> as the list of its members in insertion
  order, the counters of \<^verbatim>\<open>stats\<close>, and the promises and workers of the run.
\<close>

record optimizedValidator = validatorBase +
  concurrentPerSession :: nat
  maxRetries :: nat
  workQueue :: "jsval list"
  processing :: "jsval list"
  stats_processed :: nat
  stats_verified :: nat
  stats_errors :: nat
  tasks :: "task list"
  workers :: "worker list"

text \<open>
  The constructor builds its options as
  \<^verbatim>\<open>{ maxRetries: options.maxRetries || 2, ...options }\<close>: the default 2 stands only when
  the caller gives no \<^verbatim>\<open>maxRetries\<close>, since the spread writes a given value, 0 included,
  over it.
\<close>

definition options_maxRetries :: "nat option \<Rightarrow> nat" where
  "options_maxRetries given =
     (let byDefault = (case given of Some m \<Rightarrow> (if m \<noteq> 0 then m else 2) | None \<Rightarrow> 2)
      in case given of Some m \<Rightarrow> m | None \<Rightarrow> byDefault)"

text \<open>\<^verbatim>\<open>Set.prototype.add\<close> and \<^verbatim>\<open>Set.prototype.delete\<close>.\<close>

definition set_add :: "'a \<Rightarrow> 'a list \<Rightarrow> 'a list" where
  "set_add x s = (if x \<in> set s then s else s @ [x])"

definition set_delete :: "'a \<Rightarrow> 'a list \<Rightarrow> 'a list" where
  "set_delete x s = removeAll x s"

text \<open>
  The three segments of \<^verbatim>\<open>processNumber\<close>, for the promise \<open>t\<close>. \<open>succeed\<close> runs when the
  check has resolved: it pushes the result, counts and settles the promise.
  \<open>catchError\<close> is the \<^verbatim>\<open>catch\<close> block: it ends in the terminal error result or at the
  retry delay. \<open>attempt\<close> is the head of the \<^verbatim>\<open>while\<close> loop followed by the \<^verbatim>\<open>try\<close> block
  up to the await of the check; when \<^verbatim>\<open>retries < maxRetries\<close> fails the function falls
  off its end and the promise settles with \<^verbatim>\<open>undefined\<close>.
\<close>

definition succeed :: "nat \<Rightarrow> string \<Rightarrow> bool \<Rightarrow> optimizedValidator \<Rightarrow> optimizedValidator" where
  "succeed t whatsappId isRegistered v =
     (let tk = tasks v ! t;
          session = whatsappSessions v ! owner tk;
          r = \<lparr>number = number_of (numberObj tk), whatsapp_id = whatsappId,
               is_registered = isRegistered, has_profile_pic = None, about = None,
               status = ''success'', error = None, session_id = Some (id_s session)\<rparr>
      in v\<lparr>results := results v @ [r],
           whatsappSessions := (whatsappSessions v)
             [owner tk := session\<lparr>checked := checked session + 1,
                                  verified := (if isRegistered then verified session + 1
                                               else verified session)\<rparr>],
           stats_processed := stats_processed v + 1,
           stats_verified := (if isRegistered then stats_verified v + 1 else stats_verified v),
           processing := set_delete (numberObj tk) (processing v),
           tasks := (tasks v)[t := tk\<lparr>phase := Settled (Some r)\<rparr>]\<rparr>)"

definition catchError :: "nat \<Rightarrow> string \<Rightarrow> optimizedValidator \<Rightarrow> optimizedValidator" where
  "catchError t message v =
     (let tk = tasks v ! t;
          session = (whatsappSessions v ! owner tk)\<lparr>lastError := Some message\<rparr>;
          retries' = retries tk + 1
      in if retries' \<ge> maxRetries v
         then (let r = \<lparr>number = number_of (numberObj tk), whatsapp_id = [],
                        is_registered = False, has_profile_pic = None, about = None,
                        status = ''error'', error = Some message, session_id = Some (id_s session)\<rparr>
               in v\<lparr>whatsappSessions := (whatsappSessions v)
                       [owner tk := session\<lparr>errors := errors session + 1\<rparr>],
                    stats_errors := stats_errors v + 1,
                    results := results v @ [r],
                    stats_processed := stats_processed v + 1,
                    processing := set_delete (numberObj tk) (processing v),
                    tasks := (tasks v)[t := tk\<lparr>retries := retries', phase := Settled (Some r)\<rparr>]\<rparr>)
         else v\<lparr>whatsappSessions := (whatsappSessions v)[owner tk := session],
                tasks := (tasks v)[t := tk\<lparr>retries := retries', phase := AwaitDelay (100 * retries')\<rparr>]\<rparr>)"

definition attempt :: "nat \<Rightarrow> optimizedValidator \<Rightarrow> optimizedValidator" where
  "attempt t v =
     (let tk = tasks v ! t
      in if retries tk < maxRetries v
         then (case number_of (numberObj tk) of
                 Str n \<Rightarrow> v\<lparr>tasks := (tasks v)[t := tk\<lparr>phase := AwaitCheck (whatsappId_optimized n)\<rparr>]\<rparr>
               | Obj i x \<Rightarrow> catchError t replaceTypeError v)
         else v\<lparr>tasks := (tasks v)[t := tk\<lparr>phase := Settled None\<rparr>]\<rparr>)"

text \<open>
  The call \<^verbatim>\<open>processNumber(session, numberObj)\<close>: a new promise, run up to its first
  await (the phase given to the new record is overwritten by \<open>attempt\<close>).
\<close>

definition processNumber :: "nat \<Rightarrow> jsval \<Rightarrow> optimizedValidator \<Rightarrow> optimizedValidator" where
  "processNumber s num v =
     attempt (length (tasks v))
       (v\<lparr>tasks := tasks v @ [\<lparr>owner = s, numberObj = num, retries = 0, phase = Settled None, checks = []\<rparr>]\<rparr>)"

text \<open>
  The inner loop of \<^verbatim>\<open>sessionWorker\<close>, "fill up concurrent slots", over the queue it
  shifts. \<open>spawn\<close> is its body for a truthy entry: the entry joins \<^verbatim>\<open>processing\<close>, and the
  promise of \<^verbatim>\<open>processNumber\<close> is pushed on \<^verbatim>\<open>concurrentTasks\<close>. A falsy entry is shifted
  and skipped by \<^verbatim>\<open>if (number)\<close>.
\<close>

definition spawn :: "nat \<Rightarrow> jsval \<Rightarrow> jsval list \<Rightarrow> optimizedValidator \<Rightarrow> optimizedValidator" where
  "spawn w num queue v =
     (let v1 = processNumber w num (v\<lparr>workQueue := queue, processing := set_add num (processing v)\<rparr>)
      in v1\<lparr>workers := (workers v1)
              [w := (workers v1 ! w)
                 \<lparr>concurrentTasks := concurrentTasks (workers v1 ! w) @ [length (tasks v)]\<rparr>]\<rparr>)"

fun fill :: "nat \<Rightarrow> jsval list \<Rightarrow> optimizedValidator \<Rightarrow> optimizedValidator" where
  "fill w [] v = v"
| "fill w (num # queue) v =
     (if length (concurrentTasks (workers v ! w)) < concurrentPerSession v
      then fill w queue (if truthy num then spawn w num queue v else v\<lparr>workQueue := queue\<rparr>)
      else v)"

text \<open>\<^verbatim>\<open>isPromiseResolved\<close>: a settled promise wins the race against the timer of 1 ms.\<close>

definition isSettled :: "optimizedValidator \<Rightarrow> nat \<Rightarrow> bool" where
  "isSettled v t = (case phase (tasks v ! t) of Settled r \<Rightarrow> True | _ \<Rightarrow> False)"

text \<open>
  One segment of \<^verbatim>\<open>sessionWorker\<close> for worker \<open>w\<close>, from the point where it stands to its
  next await (\<open>None\<close>: the await cannot resume yet, or the worker has returned).
  \<open>throttle\<close> is the statement \<^verbatim>\<open>if (this.workQueue.length > 0) await this.delay(10)\<close> at
  the end of the loop body. The head of the loop counts as a point of its own, so the
  transition system has every interleaving of the program and some more.
\<close>

definition goto :: "nat \<Rightarrow> pc \<Rightarrow> optimizedValidator \<Rightarrow> optimizedValidator" where
  "goto w l v = v\<lparr>workers := (workers v)[w := (workers v ! w)\<lparr>pc := l\<rparr>]\<rparr>"

definition throttle :: "nat \<Rightarrow> optimizedValidator \<Rightarrow> optimizedValidator" where
  "throttle w v = goto w (if workQueue v \<noteq> [] then AwaitThrottle else LoopHead) v"

definition sessionWorker :: "nat \<Rightarrow> optimizedValidator \<Rightarrow> optimizedValidator option" where
  "sessionWorker w v =
     (let cts = concurrentTasks (workers v ! w)
      in case pc (workers v ! w) of
           LoopHead \<Rightarrow>
             (if workQueue v \<noteq> [] \<or> processing v \<noteq> []
              then (let v1 = fill w (workQueue v) v
                    in if concurrentTasks (workers v1 ! w) \<noteq> [] then Some (goto w AwaitRace v1)
                       else if workQueue v1 = [] \<and> processing v1 \<noteq> [] then Some (goto w AwaitIdle v1)
                       else Some (throttle w v1))
              else if cts \<noteq> [] then Some (goto w FinalWait v)
              else Some (goto w Returned v))
         | AwaitRace \<Rightarrow>
             (if list_ex (isSettled v) cts then Some (goto w (Removing (length cts)) v) else None)
         | Removing 0 \<Rightarrow> Some (throttle w v)
         | Removing (Suc i) \<Rightarrow>
             Some (goto w (Removing i)
                    (if isSettled v (cts ! i)
                     then v\<lparr>workers := (workers v)
                             [w := (workers v ! w)\<lparr>concurrentTasks := take i cts @ drop (Suc i) cts\<rparr>]\<rparr>
                     else v))
         | AwaitIdle \<Rightarrow> Some (throttle w v)
         | AwaitThrottle \<Rightarrow> Some (goto w LoopHead v)
         | FinalWait \<Rightarrow> (if list_all (isSettled v) cts then Some (goto w Returned v) else None)
         | Returned \<Rightarrow> None)"

text \<open>
  The events, the step of the system and a run from a list of events (\<open>None\<close>: an event
  that cannot happen in the state it meets).
\<close>

datatype event = Worker nat | CheckSettles nat "bool reply" | DelayFires nat

fun step :: "optimizedValidator \<Rightarrow> event \<Rightarrow> optimizedValidator option" where
  "step v (Worker w) = (if w < length (workers v) then sessionWorker w v else None)"
| "step v (CheckSettles t reply) =
     (if t < length (tasks v)
      then (case phase (tasks v ! t) of
              AwaitCheck whatsappId \<Rightarrow>
                (let v1 = v\<lparr>tasks := (tasks v)[t := (tasks v ! t)\<lparr>checks := checks (tasks v ! t) @ [reply]\<rparr>]\<rparr>
                 in case reply of
                      Resolves isRegistered \<Rightarrow> Some (succeed t whatsappId isRegistered v1)
                    | Rejects message \<Rightarrow> Some (catchError t message v1))
            | _ \<Rightarrow> None)
      else None)"
| "step v (DelayFires t) =
     (if t < length (tasks v)
      then (case phase (tasks v ! t) of AwaitDelay ms \<Rightarrow> Some (attempt t v) | _ \<Rightarrow> None)
      else None)"

fun run :: "optimizedValidator \<Rightarrow> event list \<Rightarrow> optimizedValidator option" where
  "run v [] = Some v"
| "run v (e # es) = (case step v e of None \<Rightarrow> None | Some v' \<Rightarrow> run v' es)"

text \<open>
  The state in which \<^verbatim>\<open>validateBatch(numbers)\<close> starts its workers, on a validator that
  \<^verbatim>\<open>initialize\<close> has given the sessions; \<^verbatim>\<open>validateBatch\<close> reports completion when every
  worker has returned (\<^verbatim>\<open>Promise.all(workers)\<close>).
\<close>

definition validateBatch_optimized ::
  "session list \<Rightarrow> nat \<Rightarrow> nat \<Rightarrow> jsval list \<Rightarrow> optimizedValidator" where
  "validateBatch_optimized sessions perSession retryLimit numbers =
     \<lparr>whatsappSessions = sessions, results = [],
      concurrentPerSession = perSession, maxRetries = retryLimit,
      workQueue = numbers, processing = [],
      stats_processed = 0, stats_verified = 0, stats_errors = 0,
      tasks = [], workers = map (\<lambda>s. \<lparr>concurrentTasks = [], pc = LoopHead\<rparr>) sessions\<rparr>"

definition completed :: "optimizedValidator \<Rightarrow> bool" where
  "completed v = list_all (\<lambda>w. pc w = Returned) (workers v)"

section \<open>Invariants of the optimized validator\<close>

text \<open>
  The predicates below are not part of the program: they state what holds of every
  reachable state. \<open>task_ok\<close> relates the state of one call to the replies it has
  received; \<open>committed\<close> lists the results returned by the settled calls.
\<close>

fun rejected :: "bool reply \<Rightarrow> bool" where
  "rejected (Rejects message) = True"
| "rejected (Resolves b) = False"

definition committed_of :: "task \<Rightarrow> result list" where
  "committed_of tk = (case phase tk of Settled (Some r) \<Rightarrow> [r] | _ \<Rightarrow> [])"

definition committed :: "task list \<Rightarrow> result list" where
  "committed ts = concat (map committed_of ts)"

definition task_ok :: "nat \<Rightarrow> task \<Rightarrow> bool" where
  "task_ok R tk =
     (case phase tk of
        AwaitCheck wid \<Rightarrow>
          retries tk < R \<and> list_all rejected (checks tk) \<and> length (checks tk) = retries tk
          \<and> (\<exists>n. number_of (numberObj tk) = Str n)
      | AwaitDelay ms \<Rightarrow>
          retries tk < R \<and> list_all rejected (checks tk)
          \<and> (case number_of (numberObj tk) of Str n \<Rightarrow> length (checks tk) = retries tk
              | Obj i x \<Rightarrow> checks tk = [])
      | Settled None \<Rightarrow> R = 0 \<and> checks tk = []
      | Settled (Some r) \<Rightarrow>
          number r = number_of (numberObj tk) \<and> length (checks tk) \<le> R
          \<and> (status r = ''error'' \<and> list_all rejected (checks tk)
              \<or> status r = ''success'' \<and> checks tk \<noteq> []
                  \<and> last (checks tk) = Resolves (is_registered r)))"

text \<open>
  \<open>task_move v t tk' v'\<close>: the step from \<open>v\<close> to \<open>v'\<close> replaces promise \<open>t\<close> by \<open>tk'\<close>,
  pushes the result that \<open>tk'\<close> returns, if any, and touches neither queue nor workers.
\<close>

definition task_move :: "optimizedValidator \<Rightarrow> nat \<Rightarrow> task \<Rightarrow> optimizedValidator \<Rightarrow> bool" where
  "task_move v t tk' v' =
     (tasks v' = (tasks v)[t := tk']
      \<and> owner tk' = owner (tasks v ! t) \<and> numberObj tk' = numberObj (tasks v ! t)
      \<and> workers v' = workers v \<and> workQueue v' = workQueue v
      \<and> maxRetries v' = maxRetries v \<and> concurrentPerSession v' = concurrentPerSession v
      \<and> results v' = results v @ committed_of tk'
      \<and> (committed_of tk' = [] \<longrightarrow> processing v' = processing v)
      \<and> set (processing v') \<subseteq> set (processing v))"

definition pre_attempt :: "nat \<Rightarrow> task \<Rightarrow> bool" where
  "pre_attempt R tk =
     (list_all rejected (checks tk)
      \<and> (case number_of (numberObj tk) of Str n \<Rightarrow> length (checks tk) = retries tk
          | Obj i x \<Rightarrow> checks tk = [])
      \<and> (retries tk < R \<or> retries tk = 0 \<and> checks tk = []))"

text \<open>
  The parts of the invariant: every call is consistent with its replies; each truthy
  number is in the queue or the argument of one call; the results are those of the
  settled calls; an unsettled call is held by the worker that owns it; a worker that has
  left its loop sees an empty queue; and with \<^verbatim>\<open>maxRetries = 0\<close> nothing is ever recorded
  or removed from \<^verbatim>\<open>processing\<close>.
\<close>

definition exited :: "worker \<Rightarrow> bool" where
  "exited w = (pc w = FinalWait \<or> pc w = Returned)"

definition tasks_ok :: "optimizedValidator \<Rightarrow> bool" where
  "tasks_ok v = (\<forall>tk \<in> set (tasks v). task_ok (maxRetries v) tk)"

definition items_kept :: "jsval list \<Rightarrow> optimizedValidator \<Rightarrow> bool" where
  "items_kept numbers v =
     (mset (filter truthy (workQueue v)) + mset (map numberObj (tasks v)) = mset (filter truthy numbers))"

definition results_kept :: "optimizedValidator \<Rightarrow> bool" where
  "results_kept v = (mset (results v) = mset (committed (tasks v)))"

definition owned :: "optimizedValidator \<Rightarrow> bool" where
  "owned v =
     (\<forall>t < length (tasks v). \<not> isSettled v t \<longrightarrow>
        owner (tasks v ! t) < length (workers v)
        \<and> t \<in> set (concurrentTasks (workers v ! owner (tasks v ! t))))"

definition in_range :: "optimizedValidator \<Rightarrow> bool" where
  "in_range v = (\<forall>w \<in> set (workers v). \<forall>t \<in> set (concurrentTasks w). t < length (tasks v))"

definition returned_ok :: "optimizedValidator \<Rightarrow> bool" where
  "returned_ok v =
     (\<forall>w \<in> set (workers v). pc w = Returned \<longrightarrow> (\<forall>t \<in> set (concurrentTasks w). isSettled v t))"

definition drained :: "optimizedValidator \<Rightarrow> bool" where
  "drained v = ((\<exists>w \<in> set (workers v). exited w) \<longrightarrow> workQueue v = [])"

definition stuck :: "session list \<Rightarrow> optimizedValidator \<Rightarrow> bool" where
  "stuck sessions v =
     (maxRetries v = 0 \<longrightarrow>
        (\<forall>tk \<in> set (tasks v). numberObj tk \<in> set (processing v) \<and> phase tk = Settled None \<and> checks tk = [])
        \<and> ((\<exists>w \<in> set (workers v). exited w) \<longrightarrow> tasks v = [])
        \<and> results v = [] \<and> stats_processed v = 0 \<and> stats_verified v = 0 \<and> stats_errors v = 0
        \<and> whatsappSessions v = sessions)"

definition inv :: "jsval list \<Rightarrow> session list \<Rightarrow> optimizedValidator \<Rightarrow> bool" where
  "inv numbers sessions v =
     (tasks_ok v \<and> items_kept numbers v \<and> results_kept v \<and> owned v \<and> in_range v
      \<and> returned_ok v \<and> drained v \<and> stuck sessions v)"

section \<open>Normalization: the rule and its consequences\<close>

lemma hasCountryPrefix_startsWith: "hasCountryPrefix ds = startsWith ds ''962''"
  by (cases ds rule: hasCountryPrefix.cases) (auto simp: startsWith_def)

lemma dropLeadingDigit_substring1: "dropLeadingDigit ds = substring1 ds"
  by (cases ds) (simp_all add: substring1_def)

lemma stripNonDigits_idem: "stripNonDigits (stripNonDigits x) = stripNonDigits x"
  by (simp add: stripNonDigits_def)

lemma stripNonDigits_append: "stripNonDigits (xs @ ys) = stripNonDigits xs @ stripNonDigits ys"
  by (simp add: stripNonDigits_def)

lemma stripNonDigits_suffix: "stripNonDigits ''@c.us'' = []"
  by (simp add: stripNonDigits_def isDigit_def)

lemma stripNonDigits_962: "stripNonDigits ''962'' = ''962''"
  by (simp add: stripNonDigits_def isDigit_def)

lemma stripNonDigits_drop: "stripNonDigits (drop n (stripNonDigits x)) = drop n (stripNonDigits x)"
  unfolding stripNonDigits_def
  by (rule filter_True) (auto dest: in_set_dropD)

lemma stripNonDigits_962_cons:
  "stripNonDigits (CHR ''9'' # CHR ''6'' # CHR ''2'' # ds) = CHR ''9'' # CHR ''6'' # CHR ''2'' # stripNonDigits ds"
  by (simp add: stripNonDigits_def isDigit_def)

lemma normalize_spec_digits: "stripNonDigits (normalize_spec x) = normalize_spec x"
proof -
  have d: "dropLeadingDigit ds = drop 1 ds" for ds
    by (simp add: dropLeadingDigit_substring1 substring1_def)
  have n: "normalize_spec x =
      (if hasCountryPrefix (stripNonDigits x) then stripNonDigits x
       else CHR ''9'' # CHR ''6'' # CHR ''2'' # drop 1 (stripNonDigits x))"
    by (simp add: normalize_spec_def Let_def d flip: stripNonDigits_def)
  show ?thesis
    unfolding n using stripNonDigits_drop [of 1 x]
    by (simp only: stripNonDigits_962_cons stripNonDigits_idem if_distrib [of stripNonDigits] if_cancel)
qed

lemma normalize_spec_prefix: "hasCountryPrefix (normalize_spec x)"
  by (simp add: normalize_spec_def Let_def)

lemma normalize_spec_idempotent: "normalize_spec (normalize_spec x) = normalize_spec x"
proof -
  have "normalize_spec (normalize_spec x) =
        (let digits = stripNonDigits (normalize_spec x)
         in if hasCountryPrefix digits then digits else ''962'' @ dropLeadingDigit digits)"
    by (simp add: normalize_spec_def [of "normalize_spec x"] stripNonDigits_def)
  then show ?thesis
    by (simp add: normalize_spec_digits normalize_spec_prefix)
qed

text \<open>
  C4. For every raw number string, each validator variant computes the identifier of the
  rule (strip the non-digits; keep a string that starts with 962, otherwise replace its
  first digit by 962), followed by the suffix \<^verbatim>\<open>@c.us\<close> of the transport call.
\<close>

theorem whatsappId_is_normalize_spec:
  "whatsappId_optimized x = normalize_spec x @ ''@c.us''
   \<and> whatsappId_safe x = normalize_spec x @ ''@c.us''
   \<and> whatsappId_basic x = normalize_spec x @ ''@c.us''
   \<and> whatsappId_multi x = normalize_spec x @ ''@c.us''"
  by (simp add: whatsappId_optimized_def whatsappId_safe_def whatsappId_basic_def
      whatsappId_multi_def normalize_spec_def Let_def hasCountryPrefix_startsWith
      dropLeadingDigit_substring1 flip: stripNonDigits_def)

lemma whatsappId_optimized_spec: "whatsappId_optimized x = normalize_spec x @ ''@c.us''"
  by (simp add: whatsappId_optimized_def normalize_spec_def Let_def hasCountryPrefix_startsWith
      dropLeadingDigit_substring1 flip: stripNonDigits_def)

lemma normalize_spec_suffix: "normalize_spec (y @ ''@c.us'') = normalize_spec y"
  by (simp add: normalize_spec_def isDigit_def)

lemma whatsappId_variants:
  "whatsappId_safe = whatsappId_optimized" "whatsappId_basic = whatsappId_optimized"
  "whatsappId_multi = whatsappId_optimized"
  by (rule ext, simp add: whatsappId_optimized_def whatsappId_safe_def whatsappId_basic_def
      whatsappId_multi_def)+

lemma whatsappId_leading_zero:
  "whatsappId_optimized (CHR ''0'' # rest) = ''962'' @ stripNonDigits rest @ ''@c.us''"
  by (simp add: whatsappId_optimized_def stripNonDigits_def isDigit_def startsWith_def
      substring1_def)

lemma whatsappId_country_code:
  "whatsappId_optimized (''962'' @ rest) = ''962'' @ stripNonDigits rest @ ''@c.us''"
  by (simp add: whatsappId_optimized_def stripNonDigits_def isDigit_def startsWith_def)

text \<open>
  C5, as the claim states it, fails: the validators map the bare local number 791234567
  to 96291234567. The rule drops the first digit of every number that does not start
  with 962, so the digit 7 is lost, and the bare variant and the leading-zero variant
  0791234567 (which yields 962791234567) get different identifiers.
\<close>

theorem whatsappId_bare_variant:
  "whatsappId_optimized ''791234567'' = ''96291234567@c.us''
   \<and> whatsappId_safe ''791234567'' = ''96291234567@c.us''
   \<and> whatsappId_optimized ''0791234567'' = ''962791234567@c.us''
   \<and> whatsappId_safe ''0791234567'' = ''962791234567@c.us''
   \<and> whatsappId_optimized ''791234567'' \<noteq> whatsappId_optimized ''0791234567''
   \<and> whatsappId_safe ''791234567'' \<noteq> whatsappId_safe ''0791234567''"
  by (simp add: whatsappId_optimized_def whatsappId_safe_def
      stripNonDigits_def isDigit_def startsWith_def substring1_def)

text \<open>
  C5, amended. The normalization is idempotent: the identifier of \<open>x\<close> is a normalized
  number \<open>n\<close> followed by \<^verbatim>\<open>@c.us\<close>, and both \<open>n\<close> and the identifier itself are mapped to
  this identifier again. The four validators compute the same function. The
  leading-zero variant and the country-code variant of a number get the same identifier:
  a leading 0 before \<open>rest\<close> and a leading 962 before \<open>rest\<close> both give 962 followed by the
  digits of \<open>rest\<close>, so 0791234567 and 962791234567 both give 962791234567. A bare local
  number is not equivalent to them: 791234567 gives 96291234567.
\<close>

theorem whatsappId_idempotent:
  "(\<exists>n. whatsappId_optimized x = n @ ''@c.us'' \<and> whatsappId_optimized n = n @ ''@c.us''
        \<and> n = normalize_spec x)
   \<and> whatsappId_optimized (whatsappId_optimized x) = whatsappId_optimized x
   \<and> normalize_spec (normalize_spec x) = normalize_spec x
   \<and> whatsappId_safe = whatsappId_optimized
   \<and> whatsappId_basic = whatsappId_optimized
   \<and> whatsappId_multi = whatsappId_optimized
   \<and> whatsappId_optimized (CHR ''0'' # rest) = ''962'' @ stripNonDigits rest @ ''@c.us''
   \<and> whatsappId_optimized (''962'' @ rest) = ''962'' @ stripNonDigits rest @ ''@c.us''
   \<and> whatsappId_optimized ''0791234567'' = ''962791234567@c.us''
   \<and> whatsappId_optimized ''962791234567'' = ''962791234567@c.us''
   \<and> whatsappId_optimized ''791234567'' = ''96291234567@c.us''"
proof -
  have a: "\<exists>n. whatsappId_optimized x = n @ ''@c.us'' \<and> whatsappId_optimized n = n @ ''@c.us''
        \<and> n = normalize_spec x"
    by (simp add: whatsappId_optimized_spec normalize_spec_idempotent)
  have b: "whatsappId_optimized (whatsappId_optimized x) = whatsappId_optimized x"
    by (simp only: whatsappId_optimized_spec normalize_spec_suffix normalize_spec_idempotent)
  have c: "whatsappId_optimized ''0791234567'' = ''962791234567@c.us''"
    "whatsappId_optimized ''962791234567'' = ''962791234567@c.us''"
    "whatsappId_optimized ''791234567'' = ''96291234567@c.us''"
    by (simp_all add: whatsappId_optimized_def stripNonDigits_def isDigit_def startsWith_def
        substring1_def)
  show ?thesis
    using a b c normalize_spec_idempotent [of x] whatsappId_variants
      whatsappId_leading_zero [of rest] whatsappId_country_code [of rest]
    by (intro conjI) assumption+
qed

section \<open>The per-number check\<close>

lemma isBanSignal_replaceTypeError: "\<not> isBanSignal replaceTypeError"
  by (simp add: isBanSignal_def toLowerCase_def startsWith_def replaceTypeError_def)

lemma validateNumber_multi_returns:
  "\<exists>r. fst (validateNumber_multi session num check pic) = Inr r"
  by (simp add: validateNumber_multi_def Let_def split: jsval.split reply.split sum.split)

lemma validateNumber_safe_throws_only_ban:
  "fst (validateNumber_safe now known session num check write) = Inl message
     \<Longrightarrow> isBanSignal message"
  using isBanSignal_replaceTypeError
  by (auto simp add: validateNumber_safe_def Let_def
      split: jsval.splits reply.splits option.splits if_splits)

text \<open>
  C7, as the claim states it, fails on the safe validator: a check that rejects with the
  message "Account banned" makes \<^verbatim>\<open>validateNumber\<close> throw to its caller, and a check that
  resolves with \<open>true\<close> while the append to the master file fails is reported as an error.
\<close>

theorem validateNumber_safe_throws:
  "fst (validateNumber_safe 0 {} (newSession 0 0) (Str ''0791234567'') (Rejects ''Account banned'') None)
     = Inl ''Account banned''
   \<and> map_sum id status
        (fst (validateNumber_safe 0 {} (newSession 0 0) (Str ''0791234567'') (Resolves True) (Some ''EACCES'')))
     = Inr ''error''"
  by (simp add: validateNumber_safe_def isBanSignal_def toLowerCase_def startsWith_def newSession_def)

text \<open>
  C7, amended. \<^verbatim>\<open>MultiWhatsAppValidator.validateNumber\<close> never throws: a rejected check is
  captured with status "error" and its message, a resolved check gives status "success"
  with the registration boolean. \<^verbatim>\<open>SafeWhatsAppValidator.validateNumber\<close> captures every
  failure whose message is not a ban signal in the same way; a failure whose message
  contains "ban" or "block" is counted in \<^verbatim>\<open>session.errors\<close>, announced on the console and
  thrown again to the caller, and nothing else is ever thrown; a resolved check gives
  status "success" with the registration boolean when the append to the master file, if
  one is attempted, succeeds.
\<close>

theorem validateNumber_captures_failures:
  "(\<exists>r. fst (validateNumber_multi session num check pic) = Inr r)
   \<and> (\<exists>r. fst (validateNumber_multi session (Str n) (Rejects m) pic) = Inr r
          \<and> status r = ''error'' \<and> error r = Some m \<and> \<not> is_registered r)
   \<and> (\<exists>r. fst (validateNumber_multi session (Str n) (Resolves b) pic) = Inr r
          \<and> status r = ''success'' \<and> is_registered r = b)
   \<and> (\<not> isBanSignal m \<longrightarrow>
        (\<exists>r. fst (validateNumber_safe now known session (Str n) (Rejects m) write) = Inr r
          \<and> status r = ''error'' \<and> error r = Some m \<and> \<not> is_registered r))
   \<and> (isBanSignal m \<longrightarrow>
        validateNumber_safe now known session (Str n) (Rejects m) write
          = (Inl m, session\<lparr>errors := errors session + 1\<rparr>, True, known))
   \<and> (fst (validateNumber_safe now known session num check write) = Inl message
        \<longrightarrow> isBanSignal message)
   \<and> ((b \<and> Str n \<notin> known \<longrightarrow> write = None) \<longrightarrow>
        (\<exists>r. fst (validateNumber_safe now known session (Str n) (Resolves b) write) = Inr r
          \<and> status r = ''success'' \<and> is_registered r = b))"
proof -
  have multi_error: "\<exists>r. fst (validateNumber_multi session (Str n) (Rejects m) pic) = Inr r
          \<and> status r = ''error'' \<and> error r = Some m \<and> \<not> is_registered r"
    by (simp add: validateNumber_multi_def)
  have multi_success: "\<exists>r. fst (validateNumber_multi session (Str n) (Resolves b) pic) = Inr r
          \<and> status r = ''success'' \<and> is_registered r = b"
    by (simp add: validateNumber_multi_def)
  have safe_error: "\<exists>r. fst (validateNumber_safe now known session (Str n) (Rejects m) write) = Inr r
          \<and> status r = ''error'' \<and> error r = Some m \<and> \<not> is_registered r"
    if "\<not> isBanSignal m"
    using that by (simp add: validateNumber_safe_def)
  have safe_ban: "validateNumber_safe now known session (Str n) (Rejects m) write
          = (Inl m, session\<lparr>errors := errors session + 1\<rparr>, True, known)"
    if "isBanSignal m"
    using that by (simp add: validateNumber_safe_def)
  have safe_success: "\<exists>r. fst (validateNumber_safe now known session (Str n) (Resolves b) write) = Inr r
          \<and> status r = ''success'' \<and> is_registered r = b"
    if "b \<and> Str n \<notin> known \<longrightarrow> write = None"
    using that by (auto simp add: validateNumber_safe_def Let_def)
  show ?thesis
    using validateNumber_multi_returns multi_error multi_success safe_error safe_ban
      validateNumber_safe_throws_only_ban safe_success
    by blast
qed

theorem validateNumber_captures_failures_witness:
  "\<not> isBanSignal ''timeout'' \<and> isBanSignal ''Evaluation failed: BLOCKED''
   \<and> (\<exists>r. fst (validateNumber_safe 5 {} (newSession 0 0) (Str ''0791234567'') (Rejects ''timeout'') None) = Inr r
          \<and> status r = ''error'' \<and> error r = Some ''timeout'' \<and> \<not> is_registered r)
   \<and> validateNumber_safe 5 {} (newSession 0 0) (Str ''0791234567'') (Rejects ''Evaluation failed: BLOCKED'') None
        = (Inl ''Evaluation failed: BLOCKED'', (newSession 0 0)\<lparr>errors := errors (newSession 0 0) + 1\<rparr>, True, {})
   \<and> (\<exists>r. fst (validateNumber_safe 5 {} (newSession 0 0) (Str ''0791234567'') (Resolves True) None) = Inr r
          \<and> status r = ''success'' \<and> is_registered r = True)"
proof -
  have a: "\<not> isBanSignal ''timeout''" and b: "isBanSignal ''Evaluation failed: BLOCKED''"
    by (simp_all add: isBanSignal_def toLowerCase_def startsWith_def)
  show ?thesis
    using a b
      validateNumber_captures_failures [of "newSession 0 0" "Str ''0791234567''" "Rejects ''timeout''"
        "Resolves None" "''0791234567''" "''timeout''" True 5 "{}" None "''x''"]
      validateNumber_captures_failures [of "newSession 0 0" "Str ''0791234567''" "Rejects ''timeout''"
        "Resolves None" "''0791234567''" "''Evaluation failed: BLOCKED''" True 5 "{}" None "''x''"]
    by simp
qed

section \<open>The rate limiter\<close>

lemma checkRateLimit_rule:
  assumes "1 \<le> maxChecksPerHour"
  shows "checkRateLimit maxChecksPerHour now resumed session =
          (if now - hourStartTime session > 3600000
           then (None, session\<lparr>totalChecksThisHour := 1, hourStartTime := now\<rparr>)
           else if totalChecksThisHour session \<ge> maxChecksPerHour
           then (Some (3600000 - (now - hourStartTime session)),
                 session\<lparr>totalChecksThisHour := 1, hourStartTime := resumed\<rparr>)
           else (None, session\<lparr>totalChecksThisHour := totalChecksThisHour session + 1\<rparr>))"
  using assms by (simp add: checkRateLimit_def Let_def)

lemma checkRateLimit_count:
  assumes "1 \<le> maxChecksPerHour" "totalChecksThisHour session \<le> maxChecksPerHour"
  shows "totalChecksThisHour (snd (checkRateLimit maxChecksPerHour now resumed session)) \<le> maxChecksPerHour"
  using assms by (simp add: checkRateLimit_rule)

lemma limited_count:
  assumes "1 \<le> maxChecksPerHour" "totalChecksThisHour session \<le> maxChecksPerHour"
  shows "totalChecksThisHour (limited maxChecksPerHour session attempts) \<le> maxChecksPerHour"
  using assms(2)
proof (induction attempts arbitrary: session)
  case Nil
  then show ?case by simp
next
  case (Cons a attempts)
  obtain now resumed where a: "a = (now, resumed)" by (cases a)
  show ?case
    unfolding a limited.simps
    by (rule Cons.IH) (rule checkRateLimit_count [OF assms(1) Cons.prems])
qed

lemma admitted_length: "length (admitted maxChecksPerHour session attempts) = length attempts"
  by (induction attempts arbitrary: session) (auto split: prod.split)

text \<open>
  C3, as the claim states it, fails: the window is a fixed one that restarts at a reset,
  not a rolling one. With a cap of 2, a session whose window started at time 0 is let
  through at 3599000 and 3599500, the window is reset at 3600001, and it is let through
  again at 3600001 and 3600500: four checks within two seconds.
\<close>

theorem checkRateLimit_rolling_window_exceeded:
  "\<not> checksInHourFrom 3599000
       (admitted 2 (newSession 0 0)
          [(3599000, 3599000), (3599500, 3599500), (3600001, 3600001), (3600500, 3600500)]) \<le> 2"
  by (simp add: checksInHourFrom_def checkRateLimit_def newSession_def Let_def)

text \<open>
  C3, amended. With a cap \<^verbatim>\<open>maxChecksPerHour\<close> of at least 1, the counter of the checks
  let through since the window was last restarted never exceeds the cap. On each attempt the
  window restarts at \<open>now\<close>, with this check as its first, when \<open>now - hourStartTime\<close>
  exceeds 3600000; otherwise, when the counter has reached the cap, the session pauses for
  \<open>3600000 - (now - hourStartTime)\<close> and the window restarts at the time the pause ends;
  otherwise the counter is incremented. Every attempt is let through: none is dropped.
\<close>

theorem checkRateLimit_fixed_window:
  assumes "1 \<le> maxChecksPerHour" and "totalChecksThisHour session \<le> maxChecksPerHour"
  shows "totalChecksThisHour (limited maxChecksPerHour session attempts) \<le> maxChecksPerHour
    \<and> length (admitted maxChecksPerHour session attempts) = length attempts
    \<and> checkRateLimit maxChecksPerHour now resumed session =
          (if now - hourStartTime session > 3600000
           then (None, session\<lparr>totalChecksThisHour := 1, hourStartTime := now\<rparr>)
           else if totalChecksThisHour session \<ge> maxChecksPerHour
           then (Some (3600000 - (now - hourStartTime session)),
                 session\<lparr>totalChecksThisHour := 1, hourStartTime := resumed\<rparr>)
           else (None, session\<lparr>totalChecksThisHour := totalChecksThisHour session + 1\<rparr>))"
  using limited_count [OF assms] admitted_length checkRateLimit_rule [OF assms(1)]
  by simp

theorem checkRateLimit_fixed_window_witness:
  "(1::nat) \<le> 2 \<and> totalChecksThisHour (newSession 0 0) \<le> 2
   \<and> totalChecksThisHour (limited 2 (newSession 0 0)
        [(3599000, 3599000), (3599500, 3599500), (3599900, 3600000), (3600500, 3600500)]) \<le> 2
   \<and> length (admitted 2 (newSession 0 0)
        [(3599000, 3599000), (3599500, 3599500), (3599900, 3600000), (3600500, 3600500)]) = 4
   \<and> checkRateLimit 2 3599900 3600000 ((newSession 0 0)\<lparr>totalChecksThisHour := 2\<rparr>)
       = (Some 100, (newSession 0 0)\<lparr>totalChecksThisHour := 1, hourStartTime := 3600000\<rparr>)"
proof -
  have h1: "(1::nat) \<le> 2" by simp
  have h2: "totalChecksThisHour (newSession 0 0) \<le> 2" by (simp add: newSession_def)
  have h3: "totalChecksThisHour ((newSession 0 0)\<lparr>totalChecksThisHour := 2\<rparr>) \<le> 2" by simp
  show ?thesis
    using h1 h2
      checkRateLimit_fixed_window [OF h1 h2,
        of "[(3599000, 3599000), (3599500, 3599500), (3599900, 3600000), (3600500, 3600500)]" 0 0]
      checkRateLimit_fixed_window [OF h1 h3, of "[]" 3599900 3600000]
    by (simp add: newSession_def)
qed

section \<open>Rounding to a double\<close>

lemma pow2_powr: "pow2 e = 2 powr real_of_int e"
proof (cases "0 \<le> e")
  case True
  have "(2::real) powr real (nat e) = 2 ^ nat e" by (rule powr_realpow) simp
  moreover have "real (nat e) = real_of_int e" using True by simp
  ultimately have "(2::real) ^ nat e = 2 powr real_of_int e" by (simp only:)
  then show ?thesis using True by (simp only: pow2_def if_True)
next
  case False
  have "(2::real) powr real (nat (- e)) = 2 ^ nat (- e)" by (rule powr_realpow) simp
  moreover have "real (nat (- e)) = - real_of_int e" using False by simp
  ultimately have "(2::real) ^ nat (- e) = 2 powr (- real_of_int e)" by (simp only:)
  then have "1 / (2::real) ^ nat (- e) = 2 powr real_of_int e"
    by (simp only: powr_minus_divide) simp
  then show ?thesis using False by (simp only: pow2_def if_False)
qed

lemma pow2_pos: "0 < pow2 e"
  by (simp add: pow2_powr)

lemma pow2_add: "pow2 (a + b) = pow2 a * pow2 b"
  by (simp add: pow2_powr powr_add)

lemma pow2_mono: "a \<le> b \<Longrightarrow> pow2 a \<le> pow2 b"
  by (simp add: pow2_powr)

lemma pow2_53: "pow2 (e + 1) = pow2 (e - 52) * 2 ^ 53"
proof -
  have "pow2 (e - 52 + 53) = pow2 (e - 52) * pow2 53" by (rule pow2_add)
  moreover have "e - 52 + 53 = e + 1" by simp
  moreover have "pow2 53 = 2 ^ 53" by (simp add: pow2_def)
  ultimately show ?thesis by (simp only:)
qed

lemma pow2_52: "pow2 e = pow2 (e - 52) * 2 ^ 52"
proof -
  have "pow2 (e - 52 + 52) = pow2 (e - 52) * pow2 52" by (rule pow2_add)
  moreover have "e - 52 + 52 = e" by simp
  moreover have "pow2 52 = 2 ^ 52" by (simp add: pow2_def)
  ultimately show ?thesis by (simp only:)
qed

lemma pow2_nat: "pow2 (int k) = 2 ^ k"
  by (simp add: pow2_def)

lemma pow2_neg_nat: "pow2 (- int k) = 1 / 2 ^ k"
  by (cases "k = 0") (simp_all add: pow2_def)

lemma exponentUp_bounds:
  "1 \<le> x \<Longrightarrow>
   exponentUp n x \<le> n \<and> 2 ^ exponentUp n x \<le> x
     \<and> (exponentUp n x < n \<longrightarrow> x < 2 ^ Suc (exponentUp n x))"
proof (induction n arbitrary: x)
  case 0
  then show ?case by simp
next
  case (Suc n)
  show ?case
  proof (cases "2 \<le> x")
    case True
    then have "1 \<le> x / 2" by simp
    from Suc.IH [OF this] True show ?thesis by simp
  next
    case False
    with Suc.prems show ?thesis by simp
  qed
qed

lemma exponentDown_bounds:
  "x < 1 \<Longrightarrow> 0 < n \<Longrightarrow>
   1 \<le> exponentDown n x \<and> exponentDown n x \<le> n \<and> x * 2 ^ exponentDown n x < 2
     \<and> (exponentDown n x < n \<longrightarrow> 1 \<le> x * 2 ^ exponentDown n x)"
proof (induction n arbitrary: x)
  case 0
  then show ?case by simp
next
  case (Suc n)
  show ?case
  proof (cases "n = 0")
    case True
    with Suc.prems show ?thesis by simp
  next
    case n: False
    show ?thesis
    proof (cases "2 * x < 1")
      case True
      from Suc.IH [OF True] n Suc.prems show ?thesis by (simp add: mult.assoc [symmetric] mult.commute)
    next
      case False
      from n obtain m where m: "n = Suc m" by (cases n) auto
      from False have "exponentDown n (2 * x) = 0" by (simp add: m)
      with False Suc.prems n show ?thesis by simp
    qed
  qed
qed

lemma exponent_range: "- 1022 \<le> exponent a \<and> exponent a \<le> 1024"
proof (cases "1 \<le> a")
  case True
  from exponentUp_bounds [OF True, of 1024] show ?thesis by (simp add: exponent_def True)
next
  case False
  then have "a < 1" by simp
  from exponentDown_bounds [OF this, of 1022] False show ?thesis by (simp add: exponent_def)
qed

lemma exponent_upper: "exponent a < 1024 \<Longrightarrow> a < pow2 (exponent a + 1)"
proof (cases "1 \<le> a")
  case True
  assume "exponent a < 1024"
  then have "exponentUp 1024 a < 1024" by (simp add: exponent_def True)
  with exponentUp_bounds [OF True, of 1024] have "a < 2 ^ Suc (exponentUp 1024 a)" by blast
  moreover have "exponent a + 1 = int (Suc (exponentUp 1024 a))" by (simp add: exponent_def True)
  ultimately show ?thesis by (simp only: pow2_nat)
next
  case False
  then have a: "a < 1" by simp
  let ?d = "exponentDown 1022 a"
  from exponentDown_bounds [OF a, of 1022] have d: "1 \<le> ?d" and u: "a * 2 ^ ?d < 2" by simp_all
  from d obtain k where k: "?d = Suc k" by (cases ?d) auto
  have "exponent a + 1 = - int k" by (simp add: exponent_def False k)
  moreover have "a < 1 / 2 ^ k" using u by (simp add: k field_simps)
  ultimately show ?thesis by (simp only: pow2_neg_nat)
qed

lemma exponent_lower: "- 1022 < exponent a \<Longrightarrow> pow2 (exponent a) \<le> a"
proof (cases "1 \<le> a")
  case True
  from exponentUp_bounds [OF True, of 1024] have "2 ^ exponentUp 1024 a \<le> a" by blast
  then show ?thesis by (simp add: exponent_def True pow2_nat)
next
  case False
  assume "- 1022 < exponent a"
  then have lt: "exponentDown 1022 a < 1022" by (simp add: exponent_def False)
  from False have a: "a < 1" by simp
  from exponentDown_bounds [OF a, of 1022] lt have "1 \<le> a * 2 ^ exponentDown 1022 a" by simp
  then have "1 / 2 ^ exponentDown 1022 a \<le> a" by (simp add: field_simps)
  then show ?thesis by (simp add: exponent_def False pow2_neg_nat)
qed

lemma exponent_eq:
  assumes "pow2 e \<le> a" and "a < pow2 (e + 1)" and "- 1022 \<le> e" and "e \<le> 1023"
  shows "exponent a = e"
proof (rule ccontr)
  assume ne: "exponent a \<noteq> e"
  show False
  proof (cases "exponent a < e")
    case True
    then have "exponent a < 1024" using assms(4) by simp
    from exponent_upper [OF this] have "a < pow2 (exponent a + 1)" .
    also have "pow2 (exponent a + 1) \<le> pow2 e" using True by (intro pow2_mono) simp
    finally show False using assms(1) by simp
  next
    case False
    with ne have gt: "e < exponent a" by simp
    then have "- 1022 < exponent a" using assms(3) by simp
    from exponent_lower [OF this] have "pow2 (exponent a) \<le> a" .
    moreover have "pow2 (e + 1) \<le> pow2 (exponent a)" using gt by (intro pow2_mono) simp
    ultimately show False using assms(2) by simp
  qed
qed

lemma exponent_mono:
  assumes "a \<le> b"
  shows "exponent a \<le> exponent b"
proof (rule ccontr)
  assume "\<not> exponent a \<le> exponent b"
  then have gt: "exponent b < exponent a" by simp
  with exponent_range [of b] have "- 1022 < exponent a" by simp
  from exponent_lower [OF this] have l: "pow2 (exponent a) \<le> a" .
  from gt exponent_range [of a] have "exponent b < 1024" by simp
  from exponent_upper [OF this] have "b < pow2 (exponent b + 1)" .
  also have "pow2 (exponent b + 1) \<le> pow2 (exponent a)" using gt by (intro pow2_mono) simp
  finally show False using l assms by simp
qed

lemma roundTiesToEven_floor: "\<lfloor>q\<rfloor> \<le> roundTiesToEven q \<and> roundTiesToEven q \<le> \<lfloor>q\<rfloor> + 1"
  by (simp add: roundTiesToEven_def Let_def)

lemma roundTiesToEven_int: "roundTiesToEven (of_int n) = n"
  by (simp add: roundTiesToEven_def Let_def)

lemma roundTiesToEven_ge:
  assumes "of_int n \<le> q"
  shows "n \<le> roundTiesToEven q"
proof -
  from assms have "n \<le> \<lfloor>q\<rfloor>" by (simp add: le_floor_iff)
  with roundTiesToEven_floor [of q] show ?thesis by simp
qed

lemma roundTiesToEven_le:
  assumes "q \<le> of_int n"
  shows "roundTiesToEven q \<le> n"
proof (cases "q = of_int n")
  case True
  then show ?thesis by (simp add: roundTiesToEven_int)
next
  case False
  with assms have "q < of_int n" by simp
  then have "\<lfloor>q\<rfloor> < n" by (simp add: floor_less_iff)
  with roundTiesToEven_floor [of q] show ?thesis by simp
qed

lemma roundTiesToEven_mono:
  assumes "q \<le> q'"
  shows "roundTiesToEven q \<le> roundTiesToEven q'"
proof (cases "\<lfloor>q\<rfloor> < \<lfloor>q'\<rfloor>")
  case True
  with roundTiesToEven_floor [of q] roundTiesToEven_floor [of q'] show ?thesis by simp
next
  case False
  with floor_mono [OF assms] have e: "\<lfloor>q'\<rfloor> = \<lfloor>q\<rfloor>" by simp
  from assms have "q - of_int \<lfloor>q\<rfloor> \<le> q' - of_int \<lfloor>q\<rfloor>" by simp
  then show ?thesis
    by (simp add: roundTiesToEven_def Let_def e)
qed

lemma roundMagnitude_below:
  assumes "exponent a < 1024"
  shows "roundMagnitude a \<le> pow2 (exponent a + 1)"
proof -
  let ?u = "pow2 (exponent a - 52)"
  have u: "0 < ?u" by (rule pow2_pos)
  from exponent_upper [OF assms] have "a < ?u * 2 ^ 53" by (simp only: pow2_53)
  then have "a / ?u \<le> 2 ^ 53" using u by (simp add: field_simps)
  then have "a / ?u \<le> of_int (2 ^ 53)" by simp
  from roundTiesToEven_le [OF this] have "of_int (roundTiesToEven (a / ?u)) \<le> (2 ^ 53 :: real)"
    by (simp only: of_int_le_iff [symmetric, where ?'a = real]) simp
  then have "?u * of_int (roundTiesToEven (a / ?u)) \<le> ?u * 2 ^ 53"
    using u by (simp only: mult_le_cancel_left_pos)
  then show ?thesis by (simp only: roundMagnitude_def Let_def pow2_53 [of "exponent a"])
qed

lemma roundMagnitude_above:
  assumes "- 1022 < exponent b"
  shows "pow2 (exponent b) \<le> roundMagnitude b"
proof -
  let ?u = "pow2 (exponent b - 52)"
  have u: "0 < ?u" by (rule pow2_pos)
  from exponent_lower [OF assms] have "?u * 2 ^ 52 \<le> b" by (simp only: pow2_52 [symmetric])
  then have "2 ^ 52 \<le> b / ?u" using u by (simp add: field_simps)
  then have "of_int (2 ^ 52) \<le> b / ?u" by simp
  from roundTiesToEven_ge [OF this] have "(2 ^ 52 :: real) \<le> of_int (roundTiesToEven (b / ?u))"
    by (simp only: of_int_le_iff [symmetric, where ?'a = real]) simp
  then have "?u * 2 ^ 52 \<le> ?u * of_int (roundTiesToEven (b / ?u))"
    using u by (simp only: mult_le_cancel_left_pos)
  then show ?thesis by (simp only: roundMagnitude_def Let_def pow2_52 [symmetric])
qed

lemma roundMagnitude_mono:
  assumes "a \<le> b"
  shows "roundMagnitude a \<le> roundMagnitude b"
proof (cases "exponent a = exponent b")
  case True
  let ?u = "pow2 (exponent b - 52)"
  have u: "0 < ?u" by (rule pow2_pos)
  have "a / ?u \<le> b / ?u"
    using assms u by (simp add: divide_right_mono)
  from roundTiesToEven_mono [OF this]
  have "(of_int (roundTiesToEven (a / ?u)) :: real) \<le> of_int (roundTiesToEven (b / ?u))"
    by (simp only: of_int_le_iff)
  then have "?u * of_int (roundTiesToEven (a / ?u)) \<le> ?u * of_int (roundTiesToEven (b / ?u))"
    using u by (simp only: mult_le_cancel_left_pos)
  then show ?thesis
    by (simp only: roundMagnitude_def Let_def True)
next
  case False
  with exponent_mono [OF assms] have lt: "exponent a < exponent b" by simp
  from lt exponent_range [of b] have "exponent a < 1024" by simp
  from roundMagnitude_below [OF this] have "roundMagnitude a \<le> pow2 (exponent a + 1)" .
  also have "pow2 (exponent a + 1) \<le> pow2 (exponent b)"
    using lt by (intro pow2_mono) simp
  also have "pow2 (exponent b) \<le> roundMagnitude b"
  proof -
    from lt exponent_range [of a] have "- 1022 < exponent b" by simp
    then show ?thesis by (rule roundMagnitude_above)
  qed
  finally show ?thesis .
qed

lemma roundMagnitude_nonneg:
  assumes "0 \<le> a"
  shows "0 \<le> roundMagnitude a"
proof -
  let ?u = "pow2 (exponent a - 52)"
  have u: "0 < ?u" by (rule pow2_pos)
  then have "of_int 0 \<le> a / ?u" using assms by simp
  from roundTiesToEven_ge [OF this] u show ?thesis
    by (simp add: roundMagnitude_def Let_def)
qed

lemma roundMagnitude_binade:
  assumes "pow2 e \<le> a" and "a < pow2 (e + 1)" and "- 1022 \<le> e" and "e \<le> 1023"
  shows "roundMagnitude a = pow2 (e - 52) * of_int (roundTiesToEven (a / pow2 (e - 52)))"
  by (simp only: roundMagnitude_def Let_def exponent_eq [OF assms])

lemma roundMagnitude_pow2:
  assumes "- 1022 \<le> e" and "e \<le> 1023"
  shows "roundMagnitude (pow2 e) = pow2 e"
proof -
  have "pow2 e < pow2 (e + 1)" by (simp add: pow2_powr)
  from roundMagnitude_binade [OF order_refl this assms]
  have "roundMagnitude (pow2 e) = pow2 (e - 52) * of_int (roundTiesToEven (pow2 e / pow2 (e - 52)))" .
  moreover have "pow2 e / pow2 (e - 52) = of_int (2 ^ 52)"
    using pow2_pos [of "e - 52"] by (simp add: pow2_52 [of e])
  ultimately have "roundMagnitude (pow2 e) = pow2 (e - 52) * of_int (2 ^ 52)"
    by (simp only: roundTiesToEven_int)
  then show ?thesis by (simp add: pow2_52 [of e])
qed

lemma roundToDouble_binade:
  assumes "0 \<le> x" and "pow2 e \<le> x" and "x < pow2 (e + 1)" and "- 1022 \<le> e" and "e \<le> 1022"
  shows "roundToDouble x = Some (pow2 (e - 52) * of_int (roundTiesToEven (x / pow2 (e - 52))))"
proof -
  have e: "e \<le> 1023" using assms(5) by simp
  note b = roundMagnitude_binade [OF assms(2,3,4) e]
  have "exponent x = e" by (rule exponent_eq [OF assms(2,3,4) e])
  then have "exponent x < 1024" using e by simp
  from roundMagnitude_below [OF this] have "roundMagnitude x \<le> pow2 (exponent x + 1)" .
  also have "pow2 (exponent x + 1) \<le> pow2 1023"
    using \<open>exponent x = e\<close> assms(5) by (intro pow2_mono) simp
  also have "pow2 1023 < 2 ^ 1024" by (simp add: pow2_def)
  finally have "roundMagnitude x < 2 ^ 1024" .
  then show ?thesis using assms(1) by (simp add: roundToDouble_def Let_def b)
qed

lemma roundToDouble_zero: "roundToDouble 0 = Some 0"
proof -
  have "roundMagnitude 0 = 0" by (simp add: roundMagnitude_def Let_def roundTiesToEven_def)
  then show ?thesis by (simp add: roundToDouble_def)
qed

lemma roundToDouble_mono:
  assumes "0 \<le> x" and "x \<le> y" and "roundToDouble y = Some v"
  shows "\<exists>u. roundToDouble x = Some u \<and> 0 \<le> u \<and> u \<le> v"
proof -
  from assms(1,2) have y: "0 \<le> y" by simp
  from assms(3) y have v: "roundMagnitude y = v" and lt: "roundMagnitude y < 2 ^ 1024"
    by (simp_all add: roundToDouble_def Let_def split: if_splits)
  from roundMagnitude_mono [OF assms(2)] have le: "roundMagnitude x \<le> roundMagnitude y" .
  with lt have "roundMagnitude x < 2 ^ 1024" by simp
  then have "roundToDouble x = Some (roundMagnitude x)"
    using assms(1) by (simp add: roundToDouble_def Let_def)
  with le v roundMagnitude_nonneg [OF assms(1)] show ?thesis by simp
qed

lemma roundToDouble_finite:
  assumes "0 \<le> x" and "x \<le> 2 ^ 1023"
  shows "\<exists>u. roundToDouble x = Some u \<and> 0 \<le> u \<and> u \<le> 2 ^ 1023"
proof -
  have p: "pow2 1023 = 2 ^ 1023" by (simp add: pow2_def)
  have "roundMagnitude (pow2 1023) = pow2 1023" by (rule roundMagnitude_pow2) simp_all
  then have "roundToDouble (2 ^ 1023) = Some (2 ^ 1023)"
    by (simp add: roundToDouble_def Let_def p)
  from roundToDouble_mono [OF assms this] show ?thesis .
qed

lemma isDouble_below_one:
  assumes "isDouble r" and "0 \<le> r" and "r < 1"
  shows "r \<le> 1 - 1 / 2 ^ 53"
proof (rule ccontr)
  assume "\<not> r \<le> 1 - 1 / 2 ^ 53"
  then have gt: "1 - 1 / 2 ^ 53 < r" by simp
  have lo: "pow2 (- 1) \<le> r" using gt by (simp add: pow2_def)
  have hi: "r < pow2 (- 1 + 1)" using assms(3) by (simp add: pow2_def)
  from roundToDouble_binade [OF assms(2) lo hi] assms(1)
  have "r = pow2 (- 53) * of_int (roundTiesToEven (r / pow2 (- 53)))"
    by (simp add: isDouble_def)
  then have eq: "r * 2 ^ 53 = of_int (roundTiesToEven (r / pow2 (- 53)))"
    by (simp add: pow2_def field_simps)
  let ?n = "roundTiesToEven (r / pow2 (- 53))"
  from gt have "2 ^ 53 - 1 < r * 2 ^ 53" by (simp add: field_simps)
  with eq have "(of_int (2 ^ 53 - 1) :: real) < of_int ?n" by simp
  then have a: "2 ^ 53 - 1 < ?n" by (simp only: of_int_less_iff)
  from assms(3) have "r * 2 ^ 53 < 2 ^ 53" by simp
  with eq have "(of_int ?n :: real) < of_int (2 ^ 53)" by simp
  then have b: "?n < 2 ^ 53" by (simp only: of_int_less_iff)
  from a b show False by simp
qed

section \<open>The pauses between checks\<close>

lemma roundToDouble_eval:
  assumes "0 \<le> x" and "pow2 e \<le> x" and "x < pow2 (e + 1)" and "- 1022 \<le> e" and "e \<le> 1022"
    and "roundTiesToEven (x / pow2 (e - 52)) = n" and "pow2 (e - 52) * of_int n = v"
  shows "roundToDouble x = Some v"
  using roundToDouble_binade [OF assms(1-5)] assms(6,7) by simp

lemma double_08: "roundToDouble 0.8 = Some (3602879701896397 / 2 ^ 52)"
  by (rule roundToDouble_eval [where e = "- 1" and n = 7205759403792794])
    (simp_all add: pow2_def roundTiesToEven_def Let_def)

lemma double_04: "roundToDouble 0.4 = Some (3602879701896397 / 2 ^ 53)"
  by (rule roundToDouble_eval [where e = "- 2" and n = 7205759403792794])
    (simp_all add: pow2_def roundTiesToEven_def Let_def)

lemma double_12: "roundToDouble 1.2 = Some (5404319552844595 / 2 ^ 52)"
  by (rule roundToDouble_eval [where e = 0 and n = 5404319552844595])
    (simp_all add: pow2_def roundTiesToEven_def Let_def)

lemma isDouble_08: "roundToDouble (3602879701896397 / 2 ^ 52) = Some (3602879701896397 / 2 ^ 52)"
  by (rule roundToDouble_eval [where e = "- 1" and n = 7205759403792794])
    (simp_all add: pow2_def roundTiesToEven_def Let_def)

lemma product_max:
  "roundToDouble ((1 - 1 / 2 ^ 53) * (3602879701896397 / 2 ^ 53)) = Some (7205759403792793 / 2 ^ 54)"
  by (rule roundToDouble_eval [where e = "- 2" and n = 7205759403792793])
    (simp_all add: pow2_def roundTiesToEven_def Let_def)

lemma factor_max:
  "roundToDouble (3602879701896397 / 2 ^ 52 + 7205759403792793 / 2 ^ 54) = Some (5404319552844595 / 2 ^ 52)"
  by (rule roundToDouble_eval [where e = 0 and n = 5404319552844595])
    (simp_all add: pow2_def roundTiesToEven_def Let_def)

lemma double_2000: "roundToDouble 2000 = Some 2000"
  by (rule roundToDouble_eval [where e = 10 and n = "2000 * 2 ^ 42"])
    (simp_all add: pow2_def roundTiesToEven_def Let_def)

lemma double_7000: "roundToDouble 7000 = Some 7000"
  by (rule roundToDouble_eval [where e = 12 and n = "7000 * 2 ^ 40"])
    (simp_all add: pow2_def roundTiesToEven_def Let_def)

lemma double_10000: "roundToDouble 10000 = Some 10000"
  by (rule roundToDouble_eval [where e = 13 and n = "10000 * 2 ^ 39"])
    (simp_all add: pow2_def roundTiesToEven_def Let_def)

lemma delayVariation_range:
  assumes r: "isRandom r" and cd: "0 \<le> cd" "cd \<le> 2 ^ 1022"
  shows "\<exists>lo hi c04 jitter factor p plo phi.
           roundToDouble 0.8 = Some lo \<and> roundToDouble 1.2 = Some hi \<and> roundToDouble 0.4 = Some c04
         \<and> roundToDouble (r * c04) = Some jitter \<and> roundToDouble (lo + jitter) = Some factor
         \<and> lo \<le> factor \<and> factor \<le> hi
         \<and> delayVariation cd r = Some p \<and> roundToDouble (cd * factor) = Some p
         \<and> roundToDouble (cd * lo) = Some plo \<and> roundToDouble (cd * hi) = Some phi
         \<and> plo \<le> p \<and> p \<le> phi"
proof -
  let ?lo = "3602879701896397 / 2 ^ 52 :: real"
  let ?c4 = "3602879701896397 / 2 ^ 53 :: real"
  let ?hi = "5404319552844595 / 2 ^ 52 :: real"
  from r have r0: "0 \<le> r" and r1: "r \<le> 1 - 1 / 2 ^ 53"
    using isDouble_below_one [of r] by (simp_all add: isRandom_def)
  have "0 \<le> r * ?c4" using r0 by simp
  moreover have "r * ?c4 \<le> (1 - 1 / 2 ^ 53) * ?c4"
    using r1 by (intro mult_right_mono) simp_all
  ultimately obtain p' where p': "roundToDouble (r * ?c4) = Some p'"
    and p0: "0 \<le> p'" and pm: "p' \<le> 7205759403792793 / 2 ^ 54"
    using roundToDouble_mono [OF _ _ product_max] by blast
  have "0 \<le> ?lo + p'" using p0 by simp
  moreover have "?lo + p' \<le> ?lo + 7205759403792793 / 2 ^ 54" using pm by simp
  ultimately obtain f where f: "roundToDouble (?lo + p') = Some f" and fh: "f \<le> ?hi"
    using roundToDouble_mono [OF _ _ factor_max] by blast
  have l0: "0 \<le> ?lo" by simp
  have "?lo \<le> ?lo + p'" using p0 by simp
  from roundToDouble_mono [OF l0 this f]
  have "\<exists>u. roundToDouble ?lo = Some u \<and> 0 \<le> u \<and> u \<le> f" .
  then have fl: "?lo \<le> f" unfolding isDouble_08 by blast
  have f0: "0 \<le> f" by (rule order_trans [OF _ fl]) simp
  have "cd * ?hi \<le> 2 ^ 1022 * 2"
    using cd by (intro mult_mono) simp_all
  then have "cd * ?hi \<le> 2 ^ 1023" by simp
  moreover have "0 \<le> cd * ?hi" using cd(1) by simp
  ultimately obtain phi where phi: "roundToDouble (cd * ?hi) = Some phi"
    using roundToDouble_finite by blast
  have "0 \<le> cd * f" using cd(1) f0 by simp
  moreover have "cd * f \<le> cd * ?hi" using cd(1) fh by (intro mult_left_mono)
  ultimately obtain p where p: "roundToDouble (cd * f) = Some p" and pp: "p \<le> phi"
    using roundToDouble_mono [OF _ _ phi] by blast
  have "0 \<le> cd * ?lo" using cd(1) by simp
  moreover have "cd * ?lo \<le> cd * f" using cd(1) fl by (intro mult_left_mono)
  ultimately obtain plo where plo: "roundToDouble (cd * ?lo) = Some plo" and lp: "plo \<le> p"
    using roundToDouble_mono [OF _ _ p] by blast
  have d: "delayVariation cd r = Some p"
    by (simp only: delayVariation_def double_08 double_04 Option.bind.simps p' f p)
  show ?thesis
    using double_08 double_12 double_04 p' f fl fh d p plo phi lp pp by blast
qed

lemma breakTime_range:
  assumes r: "isRandom r" and bd: "isDouble bd" "0 \<le> bd" "bd \<le> 2 ^ 1022"
  shows "\<exists>extra p top.
           roundToDouble (r * 2000) = Some extra \<and> 0 \<le> extra \<and> extra \<le> 2000
         \<and> breakTime bd r = Some p \<and> roundToDouble (bd + extra) = Some p
         \<and> roundToDouble (bd + 2000) = Some top \<and> bd \<le> p \<and> p \<le> top
         \<and> (bd \<le> 8000 \<longrightarrow> p \<le> 10000) \<and> (bd \<le> 5000 \<longrightarrow> p \<le> 7000)"
proof -
  from r have r0: "0 \<le> r" and r1: "r < 1" by (simp_all add: isRandom_def)
  have "0 \<le> r * 2000" "r * 2000 \<le> 2000" using r0 r1 by simp_all
  then obtain extra where e: "roundToDouble (r * 2000) = Some extra"
    and e0: "0 \<le> extra" and e1: "extra \<le> 2000"
    using roundToDouble_mono [OF _ _ double_2000] by blast
  have "bd + 2000 \<le> 2 ^ 1022 + 2 ^ 1022" using bd(3) by (intro add_mono) simp_all
  then have "bd + 2000 \<le> 2 ^ 1023" by simp
  moreover have "0 \<le> bd + 2000" using bd(2) by simp
  ultimately obtain top where top: "roundToDouble (bd + 2000) = Some top"
    using roundToDouble_finite by blast
  have "0 \<le> bd + extra" "bd + extra \<le> bd + 2000" using bd(2) e0 e1 by simp_all
  then obtain p where p: "roundToDouble (bd + extra) = Some p" and pt: "p \<le> top"
    using roundToDouble_mono [OF _ _ top] by blast
  have "bd \<le> bd + extra" using e0 by simp
  from roundToDouble_mono [OF bd(2) this p] bd(1) have bp: "bd \<le> p" by (simp add: isDouble_def)
  have b: "breakTime bd r = Some p" by (simp only: breakTime_def e p Option.bind.simps)
  have p10: "p \<le> 10000" if "bd \<le> 8000"
  proof -
    have "bd + extra \<le> 10000" using that e1 by simp
    from roundToDouble_mono [OF \<open>0 \<le> bd + extra\<close> this double_10000] p show ?thesis by simp
  qed
  have p7: "p \<le> 7000" if "bd \<le> 5000"
  proof -
    have "bd + extra \<le> 7000" using that e1 by simp
    from roundToDouble_mono [OF \<open>0 \<le> bd + extra\<close> this double_7000] p show ?thesis by simp
  qed
  show ?thesis
    using e e0 e1 b p top bp pt p10 p7 by blast
qed

lemma validateSessionChunk_pauses_nth:
  "k < length ds \<Longrightarrow>
   validateSessionChunk_pauses cd bs bd len i p ds ! k
     = pausesAfterCheck cd bs bd len (i + k) (p + k + 1) (ds ! k)"
proof (induction ds arbitrary: i p k)
  case Nil
  then show ?case by simp
next
  case (Cons d ds)
  show ?case
  proof (cases k)
    case 0
    then show ?thesis by simp
  next
    case (Suc j)
    with Cons.prems have "j < length ds" by simp
    from Cons.IH [OF this, of "i + 1" "p + 1"] Suc show ?thesis by simp
  qed
qed

lemma double_half_04:
  "roundToDouble (0.5 * (3602879701896397 / 2 ^ 53)) = Some (3602879701896397 / 2 ^ 54)"
  by (rule roundToDouble_eval [where e = "- 3" and n = 7205759403792794])
    (simp_all add: pow2_def roundTiesToEven_def Let_def)

lemma double_factor_one:
  "roundToDouble (3602879701896397 / 2 ^ 52 + 3602879701896397 / 2 ^ 54) = Some 1"
  by (rule roundToDouble_eval [where e = 0 and n = 4503599627370496])
    (simp_all add: pow2_def roundTiesToEven_def Let_def)

lemma double_600: "roundToDouble (600 * 1) = Some 600"
  by (rule roundToDouble_eval [where e = 9 and n = "600 * 2 ^ 43"])
    (simp_all add: pow2_def roundTiesToEven_def Let_def)

lemma delayVariation_600_half: "delayVariation 600 0.5 = Some 600"
  by (simp only: delayVariation_def double_08 double_04 Option.bind.simps double_half_04
      double_factor_one double_600)

lemma double_1000: "roundToDouble (0.5 * 2000) = Some 1000"
  by (rule roundToDouble_eval [where e = 9 and n = "1000 * 2 ^ 43"])
    (simp_all add: pow2_def roundTiesToEven_def Let_def)

lemma double_21000: "roundToDouble (20000 + 1000) = Some 21000"
  by (rule roundToDouble_eval [where e = 14 and n = "21000 * 2 ^ 38"])
    (simp_all add: pow2_def roundTiesToEven_def Let_def)

lemma breakTime_20000_half: "breakTime 20000 0.5 = Some 21000"
  by (simp only: breakTime_def Option.bind.simps double_1000 double_21000)

lemma isDouble_last: "roundToDouble (1 - 1 / 2 ^ 52) = Some (1 - 1 / 2 ^ 52)"
  by (rule roundToDouble_eval [where e = "- 1" and n = 9007199254740990])
    (simp_all add: pow2_def roundTiesToEven_def Let_def)

lemma double_last_04:
  "roundToDouble ((1 - 1 / 2 ^ 52) * (3602879701896397 / 2 ^ 53)) = Some (7205759403792792 / 2 ^ 54)"
  by (rule roundToDouble_eval [where e = "- 2" and n = 7205759403792792])
    (simp_all add: pow2_def roundTiesToEven_def Let_def)

lemma double_factor_last:
  "roundToDouble (3602879701896397 / 2 ^ 52 + 7205759403792792 / 2 ^ 54) = Some (5404319552844595 / 2 ^ 52)"
  by (rule roundToDouble_eval [where e = 0 and n = 5404319552844595])
    (simp_all add: pow2_def roundTiesToEven_def Let_def)

lemma double_720: "roundToDouble (600 * (5404319552844595 / 2 ^ 52)) = Some 720"
  by (rule roundToDouble_eval [where e = 9 and n = 6333186975989760])
    (simp_all add: pow2_def roundTiesToEven_def Let_def)

lemma delayVariation_600_last: "delayVariation 600 (1 - 1 / 2 ^ 52) = Some 720"
  by (simp only: delayVariation_def double_08 double_04 Option.bind.simps double_last_04
      double_factor_last double_720)

lemma double_last_2000:
  "roundToDouble ((1 - 1 / 2 ^ 52) * 2000) = Some (8796093022207998 / 2 ^ 42)"
  by (rule roundToDouble_eval [where e = 10 and n = 8796093022207998])
    (simp_all add: pow2_def roundTiesToEven_def Let_def)

lemma double_7000_tie: "roundToDouble (5000 + 8796093022207998 / 2 ^ 42) = Some 7000"
  by (rule roundToDouble_eval [where e = 12 and n = 7696581394432000])
    (simp_all add: pow2_def roundTiesToEven_def Let_def)

lemma breakTime_5000_last: "breakTime 5000 (1 - 1 / 2 ^ 52) = Some 7000"
  by (simp only: breakTime_def Option.bind.simps double_last_2000 double_7000_tie)

lemma isDouble_5000: "roundToDouble 5000 = Some 5000"
  by (rule roundToDouble_eval [where e = 12 and n = "5000 * 2 ^ 40"])
    (simp_all add: pow2_def roundTiesToEven_def Let_def)

text \<open>
  C9, as the claim states it, fails in two places. A chunk of two numbers with a batch
  size of 2 is followed by no rest pause: the guard \<^verbatim>\<open>i < numbers.length - 1\<close> leaves out
  every pause after the last check. And the pause after 200 completed checks is a fixed
  10000 ms, which is not longer than the batch break when \<^verbatim>\<open>breakDuration\<close> is 20000.
\<close>

theorem validateSessionChunk_no_pause_after_last:
  "validateSessionChunk_pauses 600 2 5000 2 0 0 [(0.5, 0.5), (0.5, 0.5)] = [[Some 600], []]
   \<and> pausesAfterCheck 600 100 20000 1000 199 200 (0.5, 0.5) = [Some 600, Some 21000, Some 10000]"
  by (simp only: validateSessionChunk_pauses.simps pausesAfterCheck_def fst_conv snd_conv
      delayVariation_600_half breakTime_20000_half)
    (simp add: isMultiple_def)

text \<open>
  C9, amended. In a chunk of \<open>len\<close> numbers, after the check number \<open>k + 1\<close> that is not
  the last one, the session pauses for the product of \<^verbatim>\<open>checkDelay\<close> and a factor, computed
  in doubles as 0.8 plus 0.4 times the value of \<^verbatim>\<open>Math.random()\<close>: the factor lies between
  the doubles 0.8 and 1.2, both included, and the pause between the products of
  \<^verbatim>\<open>checkDelay\<close> with these two. When \<open>k + 1\<close> is a multiple of \<^verbatim>\<open>batchSize\<close> it pauses in
  addition for \<^verbatim>\<open>breakDuration\<close> plus an amount between 0 and 2000, which is 2000 times a
  second random value. When \<open>k + 1\<close> is a multiple of 200 it pauses for another 10000 ms,
  which is at least as long as the batch break when \<^verbatim>\<open>breakDuration\<close> is at most 8000, and
  longer than it for the default 5000, whose break is at most 7000. After the last check
  of the chunk there is no pause. The configured values are taken to be non-negative and
  at most \<open>2 ^ 1022\<close>, so that no operation overflows.
\<close>

theorem validateSessionChunk_pause_policy:
  assumes "length draws = len" and "k < len"
    and "isRandom (fst (draws ! k))" and "isRandom (snd (draws ! k))"
    and "0 \<le> checkDelay" and "checkDelay \<le> 2 ^ 1022"
    and "isDouble breakDuration" and "0 \<le> breakDuration" and "breakDuration \<le> 2 ^ 1022"
  shows "\<exists>lo hi c04 jitter factor delay low high extra rest top.
           roundToDouble 0.8 = Some lo \<and> roundToDouble 1.2 = Some hi \<and> roundToDouble 0.4 = Some c04
         \<and> roundToDouble (fst (draws ! k) * c04) = Some jitter
         \<and> roundToDouble (lo + jitter) = Some factor \<and> lo \<le> factor \<and> factor \<le> hi
         \<and> roundToDouble (checkDelay * factor) = Some delay
         \<and> roundToDouble (checkDelay * lo) = Some low \<and> roundToDouble (checkDelay * hi) = Some high
         \<and> low \<le> delay \<and> delay \<le> high
         \<and> roundToDouble (snd (draws ! k) * 2000) = Some extra \<and> 0 \<le> extra \<and> extra \<le> 2000
         \<and> roundToDouble (breakDuration + extra) = Some rest
         \<and> roundToDouble (breakDuration + 2000) = Some top \<and> breakDuration \<le> rest \<and> rest \<le> top
         \<and> (breakDuration \<le> 8000 \<longrightarrow> rest \<le> 10000) \<and> (breakDuration \<le> 5000 \<longrightarrow> rest \<le> 7000)
         \<and> validateSessionChunk_pauses checkDelay batchSize breakDuration len 0 0 draws ! k =
              (if k + 1 < len
               then Some delay
                    # (if isMultiple (k + 1) batchSize then [Some rest] else [])
                    @ (if isMultiple (k + 1) 200 then [Some 10000] else [])
               else [])"
proof -
  from delayVariation_range [OF assms(3,5,6)] obtain lo hi c04 jitter factor delay low high where
    d: "roundToDouble 0.8 = Some lo" "roundToDouble 1.2 = Some hi" "roundToDouble 0.4 = Some c04"
      "roundToDouble (fst (draws ! k) * c04) = Some jitter"
      "roundToDouble (lo + jitter) = Some factor" "lo \<le> factor" "factor \<le> hi"
      "delayVariation checkDelay (fst (draws ! k)) = Some delay"
      "roundToDouble (checkDelay * factor) = Some delay"
      "roundToDouble (checkDelay * lo) = Some low" "roundToDouble (checkDelay * hi) = Some high"
      "low \<le> delay" "delay \<le> high"
    by blast
  from breakTime_range [OF assms(4,7,8,9)] obtain extra rest top where
    b: "roundToDouble (snd (draws ! k) * 2000) = Some extra" "0 \<le> extra" "extra \<le> 2000"
      "breakTime breakDuration (snd (draws ! k)) = Some rest"
      "roundToDouble (breakDuration + extra) = Some rest"
      "roundToDouble (breakDuration + 2000) = Some top" "breakDuration \<le> rest" "rest \<le> top"
      "breakDuration \<le> 8000 \<longrightarrow> rest \<le> 10000" "breakDuration \<le> 5000 \<longrightarrow> rest \<le> 7000"
    by blast
  have "k < length draws" using assms(1,2) by simp
  from validateSessionChunk_pauses_nth [OF this, of checkDelay batchSize breakDuration len 0 0]
  have p: "validateSessionChunk_pauses checkDelay batchSize breakDuration len 0 0 draws ! k =
           (if k + 1 < len
            then Some delay
                 # (if isMultiple (k + 1) batchSize then [Some rest] else [])
                 @ (if isMultiple (k + 1) 200 then [Some 10000] else [])
            else [])"
    using assms(2) by (auto simp add: pausesAfterCheck_def d(8) b(4))
  show ?thesis
    using d(1-7,9-13) b(1-3,5-10) p by blast
qed

theorem validateSessionChunk_pause_policy_witness:
  "length ([(0, 0.5), (1 - 1 / 2 ^ 52, 1 - 1 / 2 ^ 52), (0.75, 0.75)] :: (real \<times> real) list) = 3
   \<and> (1::nat) < 3
   \<and> isRandom (1 - 1 / 2 ^ 52) \<and> (0::real) \<le> 600 \<and> (600::real) \<le> 2 ^ 1022
   \<and> isDouble 5000 \<and> (0::real) \<le> 5000 \<and> (5000::real) \<le> 2 ^ 1022
   \<and> (\<exists>lo hi factor rest.
         roundToDouble 0.8 = Some lo \<and> roundToDouble 1.2 = Some hi \<and> lo \<le> factor \<and> factor \<le> hi
       \<and> factor = hi \<and> roundToDouble (600 * factor) = Some 720 \<and> rest = 7000
       \<and> validateSessionChunk_pauses 600 2 5000 3 0 0
            [(0, 0.5), (1 - 1 / 2 ^ 52, 1 - 1 / 2 ^ 52), (0.75, 0.75)] ! 1 = [Some 720, Some rest])"
proof -
  let ?r = "1 - 1 / 2 ^ 52 :: real"
  let ?ds = "[(0, 0.5), (?r, ?r), (0.75, 0.75)] :: (real \<times> real) list"
  have h1: "length ?ds = 3" and h2: "(1::nat) < 3" by simp_all
  have r: "isRandom ?r" by (simp only: isRandom_def isDouble_def isDouble_last) simp
  have h3: "isRandom (fst (?ds ! 1))" and h4: "isRandom (snd (?ds ! 1))" using r by simp_all
  have h5: "(0::real) \<le> 600" and h6: "(600::real) \<le> 2 ^ 1022" by simp_all
  have h7: "isDouble 5000" by (simp only: isDouble_def isDouble_5000)
  have h8: "(0::real) \<le> 5000" and h9: "(5000::real) \<le> 2 ^ 1022" by simp_all
  from validateSessionChunk_pause_policy [OF h1 h2 h3 h4 h5 h6 h7 h8 h9, of 2]
  obtain lo hi c04 jitter factor delay extra rest where
    c: "roundToDouble 0.8 = Some lo" "roundToDouble 1.2 = Some hi" "roundToDouble 0.4 = Some c04"
      "roundToDouble (fst (?ds ! 1) * c04) = Some jitter"
      "roundToDouble (lo + jitter) = Some factor" "lo \<le> factor" "factor \<le> hi"
      "roundToDouble (600 * factor) = Some delay"
      "roundToDouble (snd (?ds ! 1) * 2000) = Some extra"
      "roundToDouble (5000 + extra) = Some rest"
      "validateSessionChunk_pauses 600 2 5000 3 0 0 ?ds ! 1 =
         (if (1::nat) + 1 < 3
          then Some delay # (if isMultiple (1 + 1) 2 then [Some rest] else [])
               @ (if isMultiple (1 + 1) 200 then [Some 10000] else [])
          else [])"
    by blast
  have lo: "lo = 3602879701896397 / 2 ^ 52" using c(1) by (simp only: double_08 option.inject)
  have hi: "hi = 5404319552844595 / 2 ^ 52" using c(2) by (simp only: double_12 option.inject)
  have c04: "c04 = 3602879701896397 / 2 ^ 53" using c(3) by (simp only: double_04 option.inject)
  have f1: "fst (?ds ! 1) = ?r" and f2: "snd (?ds ! 1) = ?r" by simp_all
  have jitter: "jitter = 7205759403792792 / 2 ^ 54"
    using c(4) by (simp only: f1 c04 double_last_04 option.inject)
  have factor: "factor = hi"
    using c(5) by (simp only: lo jitter hi double_factor_last option.inject)
  have delay: "delay = 720"
    using c(8) by (simp only: factor hi double_720 option.inject)
  have extra: "extra = 8796093022207998 / 2 ^ 42"
    using c(9) by (simp only: f2 double_last_2000 option.inject)
  have rest: "rest = 7000"
    using c(10) by (simp only: extra double_7000_tie option.inject)
  have p: "validateSessionChunk_pauses 600 2 5000 3 0 0 ?ds ! 1 = [Some 720, Some rest]"
    using c(11) by (simp add: isMultiple_def delay)
  have "\<exists>lo hi factor rest.
         roundToDouble 0.8 = Some lo \<and> roundToDouble 1.2 = Some hi \<and> lo \<le> factor \<and> factor \<le> hi
       \<and> factor = hi \<and> roundToDouble (600 * factor) = Some 720 \<and> rest = 7000
       \<and> validateSessionChunk_pauses 600 2 5000 3 0 0 ?ds ! 1 = [Some 720, Some rest]"
    using c(1,2,6,7,8) factor delay rest p by blast
  with h1 h2 r h5 h6 h7 h8 h9 show ?thesis by blast
qed

section \<open>Waiting for a session to become ready: no timeout\<close>

lemma waitForReady_Some_D:
  assumes "waitForReady isReady n = Some k"
  shows "n \<le> k \<and> isReady k \<and> (\<forall>j. n \<le> j \<and> j < k \<longrightarrow> \<not> isReady j)"
proof (rule waitForReady.raw_induct
    [where P = "\<lambda>r n k. n \<le> k \<and> r k \<and> (\<forall>j. n \<le> j \<and> j < k \<longrightarrow> \<not> r j)", OF _ assms])
  fix f :: "(nat \<Rightarrow> bool) \<Rightarrow> nat \<Rightarrow> nat option" and r :: "nat \<Rightarrow> bool" and n k :: nat
  assume IH: "\<And>r n k. f r n = Some k \<Longrightarrow> n \<le> k \<and> r k \<and> (\<forall>j. n \<le> j \<and> j < k \<longrightarrow> \<not> r j)"
    and eq: "(if r n then Some n else f r (n + 1)) = Some k"
  show "n \<le> k \<and> r k \<and> (\<forall>j. n \<le> j \<and> j < k \<longrightarrow> \<not> r j)"
  proof (cases "r n")
    case True
    with eq show ?thesis by auto
  next
    case False
    with eq have "f r (n + 1) = Some k" by simp
    from IH [OF this] have "n + 1 \<le> k" "r k" "\<forall>j. n + 1 \<le> j \<and> j < k \<longrightarrow> \<not> r j"
      by blast+
    moreover have "j = n \<or> n + 1 \<le> j" if "n \<le> j" for j
      using that by arith
    ultimately show ?thesis using False by auto
  qed
qed

lemma waitForReady_first:
  "isReady (n + k) \<Longrightarrow> (\<forall>j < k. \<not> isReady (n + j)) \<Longrightarrow> waitForReady isReady n = Some (n + k)"
proof (induction k arbitrary: n)
  case 0
  then show ?case by (subst waitForReady.simps) simp
next
  case (Suc k)
  have "\<not> isReady n" using Suc.prems(2) [rule_format, of 0] by simp
  moreover have "waitForReady isReady (n + 1) = Some (n + 1 + k)"
  proof (rule Suc.IH)
    show "isReady (n + 1 + k)" using Suc.prems(1) by simp
    show "\<forall>j<k. \<not> isReady (n + 1 + j)" using Suc.prems(2) by auto
  qed
  ultimately show ?case by (subst waitForReady.simps) simp
qed

lemma initializeSession_wait_Some_D:
  assumes "initializeSession_wait ready n = Some k"
  shows "n \<le> k \<and> ready k \<and> (\<forall>j. n \<le> j \<and> j < k \<longrightarrow> \<not> ready j)"
proof (rule initializeSession_wait.raw_induct
    [where P = "\<lambda>r n k. n \<le> k \<and> r k \<and> (\<forall>j. n \<le> j \<and> j < k \<longrightarrow> \<not> r j)", OF _ assms])
  fix f :: "(nat \<Rightarrow> bool) \<Rightarrow> nat \<Rightarrow> nat option" and r :: "nat \<Rightarrow> bool" and n k :: nat
  assume IH: "\<And>r n k. f r n = Some k \<Longrightarrow> n \<le> k \<and> r k \<and> (\<forall>j. n \<le> j \<and> j < k \<longrightarrow> \<not> r j)"
    and eq: "(if \<not> r n then f r (n + 1) else Some n) = Some k"
  show "n \<le> k \<and> r k \<and> (\<forall>j. n \<le> j \<and> j < k \<longrightarrow> \<not> r j)"
  proof (cases "r n")
    case True
    with eq show ?thesis by auto
  next
    case False
    with eq have "f r (n + 1) = Some k" by simp
    from IH [OF this] have "n + 1 \<le> k" "r k" "\<forall>j. n + 1 \<le> j \<and> j < k \<longrightarrow> \<not> r j"
      by blast+
    moreover have "j = n \<or> n + 1 \<le> j" if "n \<le> j" for j
      using that by arith
    ultimately show ?thesis using False by auto
  qed
qed

lemma initializeSession_wait_first:
  "ready (n + k) \<Longrightarrow> (\<forall>j < k. \<not> ready (n + j)) \<Longrightarrow> initializeSession_wait ready n = Some (n + k)"
proof (induction k arbitrary: n)
  case 0
  then show ?case by (subst initializeSession_wait.simps) simp
next
  case (Suc k)
  have "\<not> ready n" using Suc.prems(2) [rule_format, of 0] by simp
  moreover have "initializeSession_wait ready (n + 1) = Some (n + 1 + k)"
  proof (rule Suc.IH)
    show "ready (n + 1 + k)" using Suc.prems(1) by simp
    show "\<forall>j<k. \<not> ready (n + 1 + j)" using Suc.prems(2) by auto
  qed
  ultimately show ?case by (subst initializeSession_wait.simps) simp
qed

lemma checkRateLimit_wait_bounded:
  assumes "1 \<le> maxChecksPerHour" and "hourStartTime session \<le> now"
    and "fst (checkRateLimit maxChecksPerHour now resumed session) = Some waitTime"
  shows "0 \<le> waitTime \<and> waitTime \<le> 3600000"
  using assms by (auto simp add: checkRateLimit_rule split: if_splits)

lemma ready_first:
  fixes isReady :: "nat \<Rightarrow> bool"
  assumes "isReady i"
  shows "\<exists>k. isReady k \<and> (\<forall>j<k. \<not> isReady j)"
proof (intro exI conjI allI impI)
  show "isReady (LEAST k. isReady k)" using assms by (rule LeastI)
  fix j assume "j < (LEAST k. isReady k)"
  then show "\<not> isReady j" by (rule not_less_Least)
qed

lemma waitForReady_Some_iff:
  "waitForReady isReady 0 = Some k \<longleftrightarrow> isReady k \<and> (\<forall>j<k. \<not> isReady j)"
proof
  assume "waitForReady isReady 0 = Some k"
  from waitForReady_Some_D [OF this] show "isReady k \<and> (\<forall>j<k. \<not> isReady j)" by simp
next
  assume "isReady k \<and> (\<forall>j<k. \<not> isReady j)"
  with waitForReady_first [of isReady 0 k] show "waitForReady isReady 0 = Some k" by simp
qed

lemma waitForReady_None_iff: "waitForReady isReady 0 = None \<longleftrightarrow> (\<forall>j. \<not> isReady j)"
proof
  assume none: "waitForReady isReady 0 = None"
  show "\<forall>j. \<not> isReady j"
  proof (rule allI, rule notI)
    fix j assume "isReady j"
    from ready_first [of isReady j, OF this] obtain k where "isReady k \<and> (\<forall>j<k. \<not> isReady j)" ..
    then have "waitForReady isReady 0 = Some k" by (rule waitForReady_Some_iff [THEN iffD2])
    with none show False by simp
  qed
next
  assume never: "\<forall>j. \<not> isReady j"
  show "waitForReady isReady 0 = None"
  proof (cases "waitForReady isReady 0")
    case None
    then show ?thesis .
  next
    case (Some k')
    then have "isReady k'" using waitForReady_Some_iff [of isReady k'] by simp
    with never show ?thesis by simp
  qed
qed

lemma initializeSession_wait_Some_iff:
  "initializeSession_wait ready 0 = Some k \<longleftrightarrow> ready k \<and> (\<forall>j<k. \<not> ready j)"
proof
  assume "initializeSession_wait ready 0 = Some k"
  from initializeSession_wait_Some_D [OF this] show "ready k \<and> (\<forall>j<k. \<not> ready j)" by simp
next
  assume "ready k \<and> (\<forall>j<k. \<not> ready j)"
  with initializeSession_wait_first [of ready 0 k] show "initializeSession_wait ready 0 = Some k" by simp
qed

lemma initializeSession_wait_None_iff: "initializeSession_wait ready 0 = None \<longleftrightarrow> (\<forall>j. \<not> ready j)"
proof
  assume none: "initializeSession_wait ready 0 = None"
  show "\<forall>j. \<not> ready j"
  proof (rule allI, rule notI)
    fix j assume "ready j"
    from ready_first [of ready j, OF this] obtain k where "ready k \<and> (\<forall>j<k. \<not> ready j)" ..
    then have "initializeSession_wait ready 0 = Some k" by (rule initializeSession_wait_Some_iff [THEN iffD2])
    with none show False by simp
  qed
next
  assume never: "\<forall>j. \<not> ready j"
  show "initializeSession_wait ready 0 = None"
  proof (cases "initializeSession_wait ready 0")
    case None
    then show ?thesis .
  next
    case (Some k')
    then have "ready k'" using initializeSession_wait_Some_iff [of ready k'] by simp
    with never show ?thesis by simp
  qed
qed

text \<open>
  C8, as the claim states it, fails: no timeout bounds the wait for a session to become
  ready. When the session never becomes ready, neither polling loop ever returns, and
  nothing is reported.
\<close>

theorem waitForReady_never_returns:
  "waitForReady neverReady 0 = None \<and> initializeSession_wait neverReady 0 = None"
  by (simp add: waitForReady_None_iff initializeSession_wait_None_iff neverReady_def)

text \<open>
  C8, amended. The pause computed by the rate limiter lies between 0 and the window
  duration of 3600000 ms (for a cap of at least 1 and a clock that has not gone back
  behind the start of the window). The wait for a session to become ready has no
  timeout: it ends at the first poll that finds the session ready, and when no poll
  finds it ready the wait never ends.
\<close>

theorem waitForReady_unbounded:
  "(1 \<le> maxChecksPerHour \<and> hourStartTime session \<le> now
      \<and> fst (checkRateLimit maxChecksPerHour now resumed session) = Some waitTime
     \<longrightarrow> 0 \<le> waitTime \<and> waitTime \<le> 3600000)
   \<and> (waitForReady isReady 0 = Some k \<longleftrightarrow> isReady k \<and> (\<forall>j<k. \<not> isReady j))
   \<and> (waitForReady isReady 0 = None \<longleftrightarrow> (\<forall>j. \<not> isReady j))
   \<and> (initializeSession_wait isReady 0 = Some k \<longleftrightarrow> isReady k \<and> (\<forall>j<k. \<not> isReady j))
   \<and> (initializeSession_wait isReady 0 = None \<longleftrightarrow> (\<forall>j. \<not> isReady j))"
proof (intro conjI)
  show "1 \<le> maxChecksPerHour \<and> hourStartTime session \<le> now
      \<and> fst (checkRateLimit maxChecksPerHour now resumed session) = Some waitTime
     \<longrightarrow> 0 \<le> waitTime \<and> waitTime \<le> 3600000"
    using checkRateLimit_wait_bounded [of maxChecksPerHour session now resumed waitTime] by simp
qed (rule waitForReady_Some_iff waitForReady_None_iff
       initializeSession_wait_Some_iff initializeSession_wait_None_iff)+

theorem waitForReady_unbounded_witness:
  "(1::nat) \<le> 2 \<and> hourStartTime ((newSession 0 0)\<lparr>totalChecksThisHour := 2\<rparr>) \<le> 3599900
   \<and> fst (checkRateLimit 2 3599900 3600000 ((newSession 0 0)\<lparr>totalChecksThisHour := 2\<rparr>)) = Some 100
   \<and> (0::int) \<le> 100 \<and> (100::int) \<le> 3600000
   \<and> waitForReady (\<lambda>tick. 3 \<le> tick) 0 = Some 3
   \<and> initializeSession_wait (\<lambda>tick. 3 \<le> tick) 0 = Some 3"
proof -
  have rl: "fst (checkRateLimit 2 3599900 3600000 ((newSession 0 0)\<lparr>totalChecksThisHour := 2\<rparr>)) = Some 100"
    by (simp add: checkRateLimit_def newSession_def)
  have h: "hourStartTime ((newSession 0 0)\<lparr>totalChecksThisHour := 2\<rparr>) \<le> 3599900"
    by (simp add: newSession_def)
  have first: "(\<lambda>tick. 3 \<le> tick) (3::nat) \<and> (\<forall>j<3. \<not> (\<lambda>tick. 3 \<le> tick) (j::nat))"
    by simp
  from waitForReady_unbounded [of 2 "(newSession 0 0)\<lparr>totalChecksThisHour := 2\<rparr>" 3599900 3600000 100
      "\<lambda>tick. 3 \<le> tick" 3]
  have "waitForReady (\<lambda>tick. 3 \<le> tick) 0 = Some 3"
    and "initializeSession_wait (\<lambda>tick. 3 \<le> tick) 0 = Some 3"
    using first by blast+
  with rl h show ?thesis by simp
qed

section \<open>Checkpoints and resumption\<close>

declare validateBatch_loop.simps [simp del]

lemma loop_step:
  "i < length numbers \<Longrightarrow>
   validateBatch_loop numbers transport i out v =
     validateBatch_loop numbers transport (i + 1)
       (out @ [validateNumber_basic (number_of (numbers ! i)) (transport i)])
       (afterCheck i (out @ [validateNumber_basic (number_of (numbers ! i)) (transport i)])
          (v\<lparr>trace := trace v @ [Checked i]\<rparr>))"
  by (subst validateBatch_loop.simps) (simp add: Let_def)

lemma loop_done:
  "\<not> i < length numbers \<Longrightarrow> validateBatch_loop numbers transport i out v = (out, v)"
  by (subst validateBatch_loop.simps) simp

lemma loop_out:
  "fst (validateBatch_loop numbers transport i out v)
     = out @ map (\<lambda>j. validateNumber_basic (number_of (numbers ! j)) (transport j)) [i..<length numbers]"
proof (induction "length numbers - i" arbitrary: i out v)
  case 0
  then show ?case by (simp add: loop_done)
next
  case (Suc d)
  then have lt: "i < length numbers" and d: "d = length numbers - (i + 1)" by simp_all
  show ?case
    unfolding loop_step [OF lt] Suc.hyps(1) [OF d]
    using lt by (simp add: upt_conv_Cons)
qed

lemma ten_div_hit:
  assumes "Suc i mod 10 = 0"
  shows "10 * (Suc i div 10) = Suc i" and "10 * (i div 10) = i - 9" and "9 \<le> i"
proof -
  show "10 * (Suc i div 10) = Suc i"
    using mult_div_mod_eq [of 10 "Suc i"] assms by simp
  have m: "i mod 10 = 9"
    using assms by (simp add: mod_Suc split: if_splits)
  from mult_div_mod_eq [of 10 i] m have "10 * (i div 10) + 9 = i" by simp
  then show "10 * (i div 10) = i - 9" and "9 \<le> i" by simp_all
qed

lemma ten_div_miss:
  assumes "Suc i mod 10 \<noteq> 0"
  shows "Suc i div 10 = i div 10"
  using assms by (simp add: div_Suc)

lemma ten_div_le: "10 * (i div 10) \<le> (i::nat)"
  by simp

lemma afterCheck_hit:
  "Suc i mod 10 = 0 \<Longrightarrow>
   afterCheck i out' v =
     v\<lparr>progress := (progress v)\<lparr>lastIndex := Suc i, totalChecked := Suc (totalChecked (progress v))\<rparr>,
       progressFile := Some ((progress v)\<lparr>lastIndex := Suc i, totalChecked := Suc (totalChecked (progress v))\<rparr>),
       validated_numbers := validated_numbers v @ drop (length out' - 10) out',
       trace := trace v @ [Persisted ((progress v)\<lparr>lastIndex := Suc i,
                                                       totalChecked := Suc (totalChecked (progress v))\<rparr>),
                           Appended (drop (length out' - 10) out')]\<rparr>"
  by (simp add: afterCheck_def saveResults_append_def saveProgress_def sliceLast_def)

lemma afterCheck_miss:
  "Suc i mod 10 \<noteq> 0 \<Longrightarrow>
   afterCheck i out' v =
     v\<lparr>progress := (progress v)\<lparr>lastIndex := Suc i, totalChecked := Suc (totalChecked (progress v))\<rparr>\<rparr>"
  by (simp add: afterCheck_def)

lemma afterCheck_sink:
  assumes "k \<le> i" and "length out = i - k"
    and "validated_numbers v = S0 @ take (10 * (i div 10) - k) out"
  shows "validated_numbers (afterCheck i (out @ [r]) v)
           = S0 @ take (10 * (Suc i div 10) - k) (out @ [r])"
proof (cases "Suc i mod 10 = 0")
  case True
  note t = ten_div_hit [OF True]
  have f: "10 * (i div 10) - k = length out - 9"
    using t(2) assms(1,2) by simp
  have g: "10 * (Suc i div 10) - k = Suc (length out)"
    using t(1) assms(1,2) by simp
  have "validated_numbers (afterCheck i (out @ [r]) v)
          = S0 @ take (length out - 9) out @ drop (length out - 9) (out @ [r])"
    using assms(3) by (simp add: afterCheck_hit [OF True] f)
  also have "take (length out - 9) out @ drop (length out - 9) (out @ [r]) = out @ [r]"
    by simp
  finally show ?thesis
    by (simp add: g)
next
  case False
  have "10 * (i div 10) - k \<le> length out"
    using ten_div_le [of i] assms(1,2) by simp
  then show ?thesis
    using assms(3) by (simp add: afterCheck_miss [OF False] ten_div_miss [OF False])
qed

lemma loop_sink:
  assumes "k \<le> i" and "i \<le> length numbers" and "length out = i - k"
    and "validated_numbers v = S0 @ take (10 * (i div 10) - k) out"
  shows "validated_numbers (snd (validateBatch_loop numbers transport i out v))
           = S0 @ take (10 * (length numbers div 10) - k)
                    (fst (validateBatch_loop numbers transport i out v))"
  using assms
proof (induction "length numbers - i" arbitrary: i out v)
  case 0
  then have "i = length numbers" by simp
  with 0 show ?case by (simp add: loop_done)
next
  case (Suc d)
  then have lt: "i < length numbers" and d: "d = length numbers - (i + 1)" by simp_all
  let ?r = "validateNumber_basic (number_of (numbers ! i)) (transport i)"
  let ?v = "v\<lparr>trace := trace v @ [Checked i]\<rparr>"
  have s: "validated_numbers ?v = S0 @ take (10 * (i div 10) - k) out"
    using Suc.prems(4) by simp
  show ?case
    unfolding loop_step [OF lt]
  proof (rule Suc.hyps(1) [OF d])
    show "k \<le> i + 1" using Suc.prems(1) by simp
    show "i + 1 \<le> length numbers" using lt by simp
    show "length (out @ [?r]) = i + 1 - k" using Suc.prems(1,3) by simp
    show "validated_numbers (afterCheck i (out @ [?r]) ?v)
            = S0 @ take (10 * ((i + 1) div 10) - k) (out @ [?r])"
      using afterCheck_sink [OF Suc.prems(1,3) s] by simp
  qed
qed

lemma afterCheck_file:
  assumes "k \<le> i" and "totalChecked (progress v) = c0 + (i - k)" and "startTime (progress v) = st"
    and "progressFile v =
          (if k < 10 * (i div 10)
           then Some \<lparr>lastIndex = 10 * (i div 10), totalChecked = c0 + (10 * (i div 10) - k), startTime = st\<rparr>
           else F0)"
  shows "progressFile (afterCheck i out' v) =
          (if k < 10 * (Suc i div 10)
           then Some \<lparr>lastIndex = 10 * (Suc i div 10), totalChecked = c0 + (10 * (Suc i div 10) - k),
                      startTime = st\<rparr>
           else F0)"
    and "totalChecked (progress (afterCheck i out' v)) = c0 + (Suc i - k)"
    and "startTime (progress (afterCheck i out' v)) = st"
proof -
  show "totalChecked (progress (afterCheck i out' v)) = c0 + (Suc i - k)"
    using assms(1,2) by (cases "Suc i mod 10 = 0") (simp_all add: afterCheck_hit afterCheck_miss)
  show "startTime (progress (afterCheck i out' v)) = st"
    using assms(3) by (cases "Suc i mod 10 = 0") (simp_all add: afterCheck_hit afterCheck_miss)
  show "progressFile (afterCheck i out' v) =
          (if k < 10 * (Suc i div 10)
           then Some \<lparr>lastIndex = 10 * (Suc i div 10), totalChecked = c0 + (10 * (Suc i div 10) - k),
                      startTime = st\<rparr>
           else F0)"
  proof (cases "Suc i mod 10 = 0")
    case True
    note t = ten_div_hit [OF True]
    have e: "(progress v)\<lparr>lastIndex := Suc i, totalChecked := Suc (totalChecked (progress v))\<rparr>
             = \<lparr>lastIndex = Suc i, totalChecked = c0 + (Suc i - k), startTime = st\<rparr>"
      using assms(1,2,3) by simp
    show ?thesis
      using assms(1) by (simp add: afterCheck_hit [OF True] t(1) e)
  next
    case False
    show ?thesis
      using assms(4) by (simp add: afterCheck_miss [OF False] ten_div_miss [OF False])
  qed
qed

lemma loop_file:
  assumes "k \<le> i" and "i \<le> length numbers"
    and "totalChecked (progress v) = c0 + (i - k)" and "startTime (progress v) = st"
    and "progressFile v =
          (if k < 10 * (i div 10)
           then Some \<lparr>lastIndex = 10 * (i div 10), totalChecked = c0 + (10 * (i div 10) - k), startTime = st\<rparr>
           else F0)"
  shows "progressFile (snd (validateBatch_loop numbers transport i out v)) =
          (if k < 10 * (length numbers div 10)
           then Some \<lparr>lastIndex = 10 * (length numbers div 10),
                      totalChecked = c0 + (10 * (length numbers div 10) - k), startTime = st\<rparr>
           else F0)"
  using assms
proof (induction "length numbers - i" arbitrary: i out v)
  case 0
  then have "i = length numbers" by simp
  with 0 show ?case by (simp add: loop_done)
next
  case (Suc d)
  then have lt: "i < length numbers" and d: "d = length numbers - (i + 1)" by simp_all
  let ?r = "validateNumber_basic (number_of (numbers ! i)) (transport i)"
  let ?v = "v\<lparr>trace := trace v @ [Checked i]\<rparr>"
  have p: "totalChecked (progress ?v) = c0 + (i - k)" "startTime (progress ?v) = st"
    "progressFile ?v =
          (if k < 10 * (i div 10)
           then Some \<lparr>lastIndex = 10 * (i div 10), totalChecked = c0 + (10 * (i div 10) - k), startTime = st\<rparr>
           else F0)"
    using Suc.prems(3,4,5) by simp_all
  note a = afterCheck_file [OF Suc.prems(1) p, of "out @ [?r]"]
  show ?case
    unfolding loop_step [OF lt]
  proof (rule Suc.hyps(1) [OF d])
    show "k \<le> i + 1" using Suc.prems(1) by simp
    show "i + 1 \<le> length numbers" using lt by simp
    show "totalChecked (progress (afterCheck i (out @ [?r]) ?v)) = c0 + (i + 1 - k)"
      using a(2) by simp
    show "startTime (progress (afterCheck i (out @ [?r]) ?v)) = st"
      by (rule a(3))
    show "progressFile (afterCheck i (out @ [?r]) ?v) =
          (if k < 10 * ((i + 1) div 10)
           then Some \<lparr>lastIndex = 10 * ((i + 1) div 10),
                      totalChecked = c0 + (10 * ((i + 1) div 10) - k), startTime = st\<rparr>
           else F0)"
      using a(1) by simp
  qed
qed

lemma slice_window: "k \<le> i \<Longrightarrow> k + (Suc i - k - 10) = max k (Suc i - 10)"
  by arith

lemma afterCheck_progress:
  assumes "k \<le> i" and "totalChecked (progress v) = c0 + (i - k)" and "startTime (progress v) = st"
  shows "totalChecked (progress (afterCheck i out' v)) = c0 + (Suc i - k)"
    and "startTime (progress (afterCheck i out' v)) = st"
proof -
  show "totalChecked (progress (afterCheck i out' v)) = c0 + (Suc i - k)"
    using assms(1,2)
    by (cases "Suc i mod 10 = 0") (simp_all add: afterCheck_hit afterCheck_miss Suc_diff_le)
  show "startTime (progress (afterCheck i out' v)) = st"
    using assms(3) by (cases "Suc i mod 10 = 0") (simp_all add: afterCheck_hit afterCheck_miss)
qed

lemma afterCheck_trace:
  assumes "k \<le> i" and "totalChecked (progress v) = c0 + (i - k)" and "startTime (progress v) = st"
    and "out' = map (\<lambda>j. validateNumber_basic (number_of (numbers ! j)) (transport j)) [k..<Suc i]"
  shows "trace (afterCheck i out' (v\<lparr>trace := trace v @ [Checked i]\<rparr>))
           = trace v @ effectsOf numbers transport k c0 st i"
proof (cases "Suc i mod 10 = 0")
  case True
  have e: "(progress v)\<lparr>lastIndex := Suc i, totalChecked := Suc (totalChecked (progress v))\<rparr>
           = \<lparr>lastIndex = Suc i, totalChecked = c0 + (Suc i - k), startTime = st\<rparr>"
    using assms(1,2,3) by (simp add: Suc_diff_le)
  have l: "length out' = Suc i - k" by (simp only: assms(4) length_map length_upt)
  have "drop (length out' - 10) out'
      = map (\<lambda>j. validateNumber_basic (number_of (numbers ! j)) (transport j))
          (drop (Suc i - k - 10) [k..<Suc i])"
    unfolding l by (simp only: assms(4) drop_map)
  also have "drop (Suc i - k - 10) [k..<Suc i] = [max k (Suc i - 10)..<Suc i]"
    by (simp only: drop_upt slice_window [OF assms(1)])
  finally have d: "drop (length out' - 10) out'
      = map (\<lambda>j. validateNumber_basic (number_of (numbers ! j)) (transport j))
          [max k (Suc i - 10)..<Suc i]" .
  show ?thesis
    using True by (simp add: afterCheck_hit [OF True] e d effectsOf_def)
next
  case False
  then show ?thesis
    by (simp add: afterCheck_miss [OF False] effectsOf_def)
qed

lemma loop_trace:
  assumes "k \<le> i" and "i \<le> length numbers"
    and "totalChecked (progress v) = c0 + (i - k)" and "startTime (progress v) = st"
    and "out = map (\<lambda>j. validateNumber_basic (number_of (numbers ! j)) (transport j)) [k..<i]"
  shows "trace (snd (validateBatch_loop numbers transport i out v))
           = trace v @ concat (map (effectsOf numbers transport k c0 st) [i..<length numbers])"
  using assms
proof (induction "length numbers - i" arbitrary: i out v)
  case 0
  then have "i = length numbers" by simp
  with 0 show ?case by (simp add: loop_done)
next
  case (Suc d)
  then have lt: "i < length numbers" and d: "d = length numbers - (i + 1)" by simp_all
  let ?r = "validateNumber_basic (number_of (numbers ! i)) (transport i)"
  let ?v = "v\<lparr>trace := trace v @ [Checked i]\<rparr>"
  have o: "out @ [?r] = map (\<lambda>j. validateNumber_basic (number_of (numbers ! j)) (transport j)) [k..<Suc i]"
    using Suc.prems(1,5) by simp
  have p: "totalChecked (progress ?v) = c0 + (i - k)" "startTime (progress ?v) = st"
    using Suc.prems(3,4) by simp_all
  note t = afterCheck_trace [OF Suc.prems(1,3,4) o]
  note a = afterCheck_progress [OF Suc.prems(1) p, where out' = "out @ [?r]"]
  have "trace (snd (validateBatch_loop numbers transport (i + 1) (out @ [?r]) (afterCheck i (out @ [?r]) ?v)))
      = trace (afterCheck i (out @ [?r]) ?v)
        @ concat (map (effectsOf numbers transport k c0 st) [i + 1..<length numbers])"
  proof (rule Suc.hyps(1) [OF d])
    show "k \<le> i + 1" using Suc.prems(1) by simp
    show "i + 1 \<le> length numbers" using lt by simp
    show "totalChecked (progress (afterCheck i (out @ [?r]) ?v)) = c0 + (i + 1 - k)"
      using a(1) by simp
    show "startTime (progress (afterCheck i (out @ [?r]) ?v)) = st"
      by (rule a(2))
    show "out @ [?r] = map (\<lambda>j. validateNumber_basic (number_of (numbers ! j)) (transport j)) [k..<i + 1]"
      using o by simp
  qed
  then show ?case
    unfolding loop_step [OF lt] using lt by (simp add: t upt_conv_Cons)
qed

lemma validateBatch_out:
  "fst (validateBatch numbers k transport v)
     = map (\<lambda>j. validateNumber_basic (number_of (numbers ! j)) (transport j)) [k..<length numbers]"
  by (simp add: validateBatch_def loop_out)

lemma validateBatch_slice:
  "fst (validateBatch numbers k transport v)
     = fst (validateBatch (drop k numbers) 0 (\<lambda>j. transport (k + j)) w)"
proof (cases "k \<le> length numbers")
  case True
  have "map (\<lambda>j. validateNumber_basic (number_of (numbers ! j)) (transport j)) [k..<length numbers]
      = map (\<lambda>j. validateNumber_basic (number_of (numbers ! (k + j))) (transport (k + j)))
          [0..<length numbers - k]"
  proof -
    have "[k..<length numbers] = map (\<lambda>j. j + k) [0..<length numbers - k]"
      using True by (simp add: map_add_upt)
    then show ?thesis by (simp add: comp_def add.commute)
  qed
  then show ?thesis
    using True by (simp add: validateBatch_out)
next
  case False
  then show ?thesis by (simp add: validateBatch_out)
qed

lemma number_validateNumber_basic: "number (validateNumber_basic num t) = num"
  by (simp add: validateNumber_basic_def Let_def split: prod.split jsval.split reply.split sum.split)

lemma generateReport_returns:
  "(\<exists>report. generateReport (fst (validateBatch numbers 0 transport v)) = Inr report)
     = list_all (\<lambda>x. isString (number_of x)) numbers"
proof -
  have "list_all (\<lambda>r. isString (number r)) (fst (validateBatch numbers 0 transport v))
      = list_all (\<lambda>j. isString (number_of (numbers ! j))) [0..<length numbers]"
    by (simp add: validateBatch_out list_all_iff number_validateNumber_basic)
  also have "\<dots> = list_all (\<lambda>x. isString (number_of x)) numbers"
    by (simp add: list_all_length)
  finally show ?thesis
    by (simp add: generateReport_def)
qed

text \<open>
  C6, as the claim states it, fails: a run of \<^verbatim>\<open>validateBatch\<close> that resumes at index 5
  persists the checkpoint and flushes after five completed items, when the index
  reaches 10, and the flush holds the five results of the run, not ten.
\<close>

theorem validateBatch_checkpoint_after_five:
  "trace (snd (validateBatch (replicate 10 (Str ''0791234567'')) 5
                 (\<lambda>i. (Resolves False, Resolves None, Resolves None))
                 \<lparr>progress = \<lparr>lastIndex = 5, totalChecked = 5, startTime = ''t''\<rparr>,
                  progressFile = Some \<lparr>lastIndex = 5, totalChecked = 5, startTime = ''t''\<rparr>,
                  validated_numbers = [], trace = []\<rparr>))
   = [Checked 5, Checked 6, Checked 7, Checked 8, Checked 9,
      Persisted \<lparr>lastIndex = 10, totalChecked = 10, startTime = ''t''\<rparr>,
      Appended (replicate 5
        \<lparr>number = Str ''0791234567'', whatsapp_id = ''962791234567@c.us'', is_registered = False,
         has_profile_pic = Some False, about = Some [], status = ''success'', error = None,
         session_id = None\<rparr>)]"
  by code_simp

text \<open>
  C6, amended. A run of \<^verbatim>\<open>validateBatch\<close> from index \<open>k\<close> checks the numbers at the indices
  from \<open>k\<close> on, each once and in order, and none below \<open>k\<close>. Directly after the check of
  index \<open>i\<close>, and before the next check, when \<open>i + 1\<close> is a multiple of 10 (counted from the
  start of the list, not of the run) it persists the checkpoint with \<^verbatim>\<open>lastIndex\<close> \<open>i + 1\<close>
  and appends the last ten results of the run, or all of them when the run has fewer,
  to the result file; at no other point does it write. So at the end the file holds the
  results up to the last multiple of 10 and the persisted checkpoint has that multiple
  as \<^verbatim>\<open>lastIndex\<close>. The results are those of a run from index 0 on the remaining slice,
  and so is the report, which is produced exactly when every entry of the slice reads as
  a string. A restart takes \<open>k\<close> from the persisted checkpoint.
\<close>

theorem validateBatch_checkpoint_resume:
  "(case validateBatch numbers k transport v of
      (out, v') \<Rightarrow>
        out = map (\<lambda>j. validateNumber_basic (number_of (numbers ! j)) (transport j)) [k..<length numbers]
      \<and> trace v' = trace v @ concat (map (\<lambda>i.
            Checked i
            # (if (i + 1) mod 10 = 0
               then [Persisted \<lparr>lastIndex = i + 1,
                                totalChecked = totalChecked (progress v) + (i + 1 - k),
                                startTime = startTime (progress v)\<rparr>,
                     Appended (map (\<lambda>j. validateNumber_basic (number_of (numbers ! j)) (transport j))
                                 [max k (i + 1 - 10)..<i + 1])]
               else [])) [k..<length numbers])
      \<and> validated_numbers v' = validated_numbers v @ take (10 * (length numbers div 10) - k) out
      \<and> progressFile v' =
          (if k < 10 * (length numbers div 10)
           then Some \<lparr>lastIndex = 10 * (length numbers div 10),
                      totalChecked = totalChecked (progress v) + (10 * (length numbers div 10) - k),
                      startTime = startTime (progress v)\<rparr>
           else progressFile v)
      \<and> out = fst (validateBatch (drop k numbers) 0 (\<lambda>j. transport (k + j)) w)
      \<and> generateReport out
          = generateReport (fst (validateBatch (drop k numbers) 0 (\<lambda>j. transport (k + j)) w))
      \<and> (\<exists>report. generateReport out = Inr report)
          = list_all (\<lambda>x. isString (number_of x)) (drop k numbers))
   \<and> lastIndex (loadProgress (Some saved) now) = lastIndex saved"
proof -
  obtain out v' where r: "validateBatch numbers k transport v = (out, v')"
    by (cases "validateBatch numbers k transport v")
  have out: "out = fst (validateBatch numbers k transport v)"
    and v': "v' = snd (validateBatch numbers k transport v)"
    by (simp_all add: r)
  have sink: "validated_numbers v' = validated_numbers v @ take (10 * (length numbers div 10) - k) out"
  proof (cases "k \<le> length numbers")
    case True
    have "10 * (k div 10) - k = 0" using ten_div_le [of k] by simp
    then have "validated_numbers v = validated_numbers v @ take (10 * (k div 10) - k) []" by simp
    from loop_sink [OF le_refl True _ this, of transport] show ?thesis
      by (simp add: out v' validateBatch_def)
  next
    case False
    then have "10 * (length numbers div 10) - k = 0" using ten_div_le [of "length numbers"] by simp
    with False show ?thesis by (simp add: out v' validateBatch_def loop_done)
  qed
  have persisted: "progressFile v' =
          (if k < 10 * (length numbers div 10)
           then Some \<lparr>lastIndex = 10 * (length numbers div 10),
                      totalChecked = totalChecked (progress v) + (10 * (length numbers div 10) - k),
                      startTime = startTime (progress v)\<rparr>
           else progressFile v)"
  proof (cases "k \<le> length numbers")
    case True
    have nk: "\<not> k < 10 * (k div 10)" using ten_div_le [of k] by simp
    from loop_file [OF le_refl True, of v "totalChecked (progress v)" "startTime (progress v)"
        "progressFile v" transport "[]"] nk
    show ?thesis by (simp add: v' validateBatch_def)
  next
    case False
    then have "\<not> k < 10 * (length numbers div 10)" using ten_div_le [of "length numbers"] by simp
    with False show ?thesis by (simp add: v' validateBatch_def loop_done)
  qed
  have calls: "trace v' = trace v
      @ concat (map (effectsOf numbers transport k (totalChecked (progress v)) (startTime (progress v)))
                  [k..<length numbers])"
  proof (cases "k \<le> length numbers")
    case True
    from loop_trace [OF le_refl True, of v "totalChecked (progress v)" "startTime (progress v)"
        "[]" transport]
    show ?thesis by (simp add: v' validateBatch_def)
  next
    case False
    then show ?thesis by (simp add: v' validateBatch_def loop_done)
  qed
  have slice: "out = fst (validateBatch (drop k numbers) 0 (\<lambda>j. transport (k + j)) w)"
    unfolding out by (rule validateBatch_slice)
  have returns: "(\<exists>report. generateReport out = Inr report)
      = list_all (\<lambda>x. isString (number_of x)) (drop k numbers)"
    unfolding slice by (rule generateReport_returns)
  have "lastIndex (loadProgress (Some saved) now) = lastIndex saved"
    by (simp add: loadProgress_def)
  moreover have "out = map (\<lambda>j. validateNumber_basic (number_of (numbers ! j)) (transport j))
                        [k..<length numbers]"
    unfolding out by (rule validateBatch_out)
  moreover have "generateReport out
      = generateReport (fst (validateBatch (drop k numbers) 0 (\<lambda>j. transport (k + j)) w))"
    using slice by simp
  ultimately show ?thesis
    unfolding r prod.case using sink persisted slice returns calls [unfolded effectsOf_def]
    by (intro conjI) assumption+
qed

section \<open>A ban signal in the safe validator\<close>

lemma step_safe_Threw_refused:
  "s < length (drivers v) \<Longrightarrow> drivers v ! s = Threw m \<Longrightarrow> step_safe v (Settle s now check write) = None"
  by simp

lemma step_safe_keeps:
  assumes "step_safe v e = Some v'"
  shows "length (drivers v') = length (drivers v)"
    and "batch v = Rejected m \<Longrightarrow> batch v' = Rejected m"
    and "s < length (drivers v) \<Longrightarrow> drivers v ! s = Threw m \<Longrightarrow> drivers v' ! s = Threw m"
proof -
  obtain t now check wr where e: "e = Settle t now check wr" by (cases e)
  from assms have t: "t < length (drivers v)"
    unfolding e by (simp split: if_splits)
  from assms t obtain i where i: "drivers v ! t = Checking i"
    unfolding e by (cases "drivers v ! t") simp_all
  obtain r session' warned known' where
    vn: "validateNumber_safe now (verifiedNumbers v) (whatsappSessions v ! t)
           (number_of (chunks v ! t ! i)) check wr = (r, session', warned, known')"
    by (cases "validateNumber_safe now (verifiedNumbers v) (whatsappSessions v ! t)
           (number_of (chunks v ! t ! i)) check wr") auto
  show "length (drivers v') = length (drivers v)"
    using assms t i vn unfolding e by (cases r) (auto simp add: Let_def)
  show "batch v' = Rejected m" if "batch v = Rejected m"
    using assms t i vn that unfolding e by (cases r) (auto simp add: Let_def)
  show "drivers v' ! s = Threw m" if "s < length (drivers v)" "drivers v ! s = Threw m"
  proof -
    have "s \<noteq> t" using that i by auto
    then show ?thesis
      using assms t i vn that unfolding e by (cases r) (auto simp add: Let_def)
  qed
qed

lemma run_safe_keeps:
  assumes "run_safe v es = Some v'" and "s < length (drivers v)"
    and "drivers v ! s = Threw m" and "batch v = Rejected m'"
  shows "batch v' = Rejected m' \<and> s < length (drivers v') \<and> drivers v' ! s = Threw m"
  using assms
proof (induction es arbitrary: v)
  case Nil
  then show ?case by simp
next
  case (Cons e es)
  from Cons.prems(1) obtain u where u: "step_safe v e = Some u" and r: "run_safe u es = Some v'"
    by (auto split: option.splits)
  note k = step_safe_keeps [OF u]
  show ?case
  proof (rule Cons.IH [OF r])
    show "s < length (drivers u)" using k(1) Cons.prems(2) by simp
    show "drivers u ! s = Threw m" by (rule k(3) [OF Cons.prems(2,3)])
    show "batch u = Rejected m'" by (rule k(2) [OF Cons.prems(4)])
  qed
qed

text \<open>
  C2, as the claim states it, fails: with two sessions and one number each, a check of
  the first session that rejects with "Account banned" makes \<^verbatim>\<open>validateBatch\<close> reject, and
  the successful check of the second session does not bring the run to completion.
\<close>

theorem validateBatch_safe_aborts_on_ban:
  "map_option batch
     (run_safe (validateBatch_safe [newSession 0 0, newSession 1 0] {} [Str ''0791234567'', Str ''0781234567''])
        [Settle 0 5 (Rejects ''Account banned'') None, Settle 1 6 (Resolves True) None])
   = Some (Rejected ''Account banned'')"
  by code_simp

text \<open>
  C2, amended. When the check in flight on session \<open>s\<close> rejects with a message that is
  a ban signal, the loop of that session ends (it takes no further number, in this step
  or in any later one), the session number is printed with \<^verbatim>\<open>console.error\<close>, no result
  is recorded for the number, and \<^verbatim>\<open>validateBatch\<close> rejects with that error: whatever the
  other sessions do afterwards, the run never completes with results.
\<close>

theorem ban_stops_session_and_rejects_batch:
  assumes "s < length (drivers v)" and "drivers v ! s = Checking i"
    and "number_of (chunks v ! s ! i) = Str n" and "isBanSignal m" and "batch v = Pending"
  shows "\<exists>v'. step_safe v (Settle s now (Rejects m) write) = Some v'
           \<and> drivers v' ! s = Threw m
           \<and> banWarnings v' = banWarnings v @ [id_s (whatsappSessions v ! s) + 1]
           \<and> results v' = results v
           \<and> batch v' = Rejected m
           \<and> (\<forall>es v''. run_safe v' es = Some v'' \<longrightarrow>
                 batch v'' = Rejected m \<and> drivers v'' ! s = Threw m
                 \<and> (\<forall>now' check' write'. step_safe v'' (Settle s now' check' write') = None))"
proof -
  let ?v' = "v\<lparr>whatsappSessions := (whatsappSessions v)[s := (whatsappSessions v ! s)\<lparr>errors := errors (whatsappSessions v ! s) + 1\<rparr>],
                verifiedNumbers := verifiedNumbers v,
                banWarnings := banWarnings v @ [id_s (whatsappSessions v ! s) + 1],
                drivers := (drivers v)[s := Threw m],
                batch := Rejected m\<rparr>"
  have vn: "validateNumber_safe now (verifiedNumbers v) (whatsappSessions v ! s) (Str n) (Rejects m) write
          = (Inl m, (whatsappSessions v ! s)\<lparr>errors := errors (whatsappSessions v ! s) + 1\<rparr>, True, verifiedNumbers v)"
    using assms(4) by (simp add: validateNumber_safe_def)
  have st: "step_safe v (Settle s now (Rejects m) write) = Some ?v'"
    using assms(1,2,3,5) vn by simp
  have d: "s < length (drivers ?v')" "drivers ?v' ! s = Threw m" "batch ?v' = Rejected m"
    using assms(1) by simp_all
  have later: "batch v'' = Rejected m \<and> drivers v'' ! s = Threw m
                 \<and> (\<forall>now' check' write'. step_safe v'' (Settle s now' check' write') = None)"
    if "run_safe ?v' es = Some v''" for es v''
  proof -
    from run_safe_keeps [OF that d] have k: "batch v'' = Rejected m" "s < length (drivers v'')"
      "drivers v'' ! s = Threw m" by simp_all
    from step_safe_Threw_refused [OF k(2,3)] k(1,3) show ?thesis by blast
  qed
  show ?thesis
  proof (intro exI conjI allI impI)
    show "step_safe v (Settle s now (Rejects m) write) = Some ?v'" by (rule st)
  qed (use d later in simp_all)
qed

theorem ban_stops_session_and_rejects_batch_witness:
  "0 < length (drivers (validateBatch_safe [newSession 0 0, newSession 1 0] {}
                    [Str ''0791234567'', Str ''0781234567'']))
   \<and> drivers (validateBatch_safe [newSession 0 0, newSession 1 0] {}
                    [Str ''0791234567'', Str ''0781234567'']) ! 0 = Checking 0
   \<and> number_of (chunks (validateBatch_safe [newSession 0 0, newSession 1 0] {}
                    [Str ''0791234567'', Str ''0781234567'']) ! 0 ! 0) = Str ''0791234567''
   \<and> isBanSignal ''Account banned''
   \<and> batch (validateBatch_safe [newSession 0 0, newSession 1 0] {}
                    [Str ''0791234567'', Str ''0781234567'']) = Pending
   \<and> (\<exists>v'. step_safe (validateBatch_safe [newSession 0 0, newSession 1 0] {}
                    [Str ''0791234567'', Str ''0781234567''])
                 (Settle 0 5 (Rejects ''Account banned'') None) = Some v'
           \<and> drivers v' ! 0 = Threw ''Account banned''
           \<and> batch v' = Rejected ''Account banned'')"
proof -
  let ?v = "validateBatch_safe [newSession 0 0, newSession 1 0] {} [Str ''0791234567'', Str ''0781234567'']"
  have h1: "0 < length (drivers ?v)" by code_simp
  have h2: "drivers ?v ! 0 = Checking 0" by code_simp
  have h3: "number_of (chunks ?v ! 0 ! 0) = Str ''0791234567''" by code_simp
  have h4: "isBanSignal ''Account banned''" by code_simp
  have h5: "batch ?v = Pending" by code_simp
  from ban_stops_session_and_rejects_batch [OF h1 h2 h3 h4 h5, of 5 None]
  have "\<exists>v'. step_safe ?v (Settle 0 5 (Rejects ''Account banned'') None) = Some v'
           \<and> drivers v' ! 0 = Threw ''Account banned''
           \<and> batch v' = Rejected ''Account banned''"
    by blast
  with h1 h2 h3 h4 h5 show ?thesis by blast
qed

section \<open>The optimized validator: one result for each item\<close>

lemma succeed_move:
  "task_move v t ((tasks v ! t)\<lparr>phase := Settled (Some
       \<lparr>number = number_of (numberObj (tasks v ! t)), whatsapp_id = wid,
        is_registered = b, has_profile_pic = None, about = None,
        status = ''success'', error = None,
        session_id = Some (id_s (whatsappSessions v ! owner (tasks v ! t)))\<rparr>)\<rparr>)
     (succeed t wid b v)"
  by (simp add: task_move_def succeed_def Let_def committed_of_def set_delete_def)

lemma catchError_move:
  "\<exists>tk'. task_move v t tk' (catchError t message v)
     \<and> checks tk' = checks (tasks v ! t) \<and> retries tk' = retries (tasks v ! t) + 1
     \<and> (if retries (tasks v ! t) + 1 \<ge> maxRetries v
         then (\<exists>r. phase tk' = Settled (Some r) \<and> status r = ''error''
                   \<and> number r = number_of (numberObj (tasks v ! t)))
         else phase tk' = AwaitDelay (100 * (retries (tasks v ! t) + 1)))"
proof (cases "retries (tasks v ! t) + 1 \<ge> maxRetries v")
  case True
  then show ?thesis
    by (intro exI [of _ "(tasks v ! t)\<lparr>retries := retries (tasks v ! t) + 1, phase := Settled (Some
          \<lparr>number = number_of (numberObj (tasks v ! t)), whatsapp_id = [],
           is_registered = False, has_profile_pic = None, about = None,
           status = ''error'', error = Some message,
           session_id = Some (id_s (whatsappSessions v ! owner (tasks v ! t)))\<rparr>)\<rparr>"])
      (simp add: task_move_def catchError_def Let_def committed_of_def set_delete_def)
next
  case False
  then show ?thesis
    by (intro exI [of _ "(tasks v ! t)\<lparr>retries := retries (tasks v ! t) + 1,
          phase := AwaitDelay (100 * (retries (tasks v ! t) + 1))\<rparr>"])
      (simp add: task_move_def catchError_def Let_def committed_of_def)
qed

lemma task_ok_AwaitDelay_pre:
  "task_ok R tk \<Longrightarrow> phase tk = AwaitDelay ms \<Longrightarrow> pre_attempt R tk"
  by (simp add: task_ok_def pre_attempt_def)

lemma attempt_move:
  "\<exists>tk'. task_move v t tk' (attempt t v)
     \<and> (pre_attempt (maxRetries v) (tasks v ! t) \<longrightarrow> task_ok (maxRetries v) tk')"
proof (cases "retries (tasks v ! t) < maxRetries v")
  case False
  let ?tk' = "(tasks v ! t)\<lparr>phase := Settled None\<rparr>"
  have "task_move v t ?tk' (attempt t v)"
    using False by (simp add: attempt_def task_move_def committed_of_def)
  moreover have "task_ok (maxRetries v) ?tk'" if "pre_attempt (maxRetries v) (tasks v ! t)"
    using that False by (auto simp add: pre_attempt_def task_ok_def)
  ultimately show ?thesis by blast
next
  case True
  show ?thesis
  proof (cases "number_of (numberObj (tasks v ! t))")
    case (Str n)
    let ?tk' = "(tasks v ! t)\<lparr>phase := AwaitCheck (whatsappId_optimized n)\<rparr>"
    have "task_move v t ?tk' (attempt t v)"
      using True Str by (simp add: attempt_def task_move_def committed_of_def)
    moreover have "task_ok (maxRetries v) ?tk'" if "pre_attempt (maxRetries v) (tasks v ! t)"
      using that True Str by (simp add: pre_attempt_def task_ok_def)
    ultimately show ?thesis by blast
  next
    case (Obj i x)
    have a: "attempt t v = catchError t replaceTypeError v"
      using True Obj by (simp add: attempt_def)
    from catchError_move [of v t replaceTypeError] obtain tk' where
      m: "task_move v t tk' (catchError t replaceTypeError v)"
      and c: "checks tk' = checks (tasks v ! t)" and r: "retries tk' = retries (tasks v ! t) + 1"
      and p: "if retries (tasks v ! t) + 1 \<ge> maxRetries v
         then (\<exists>r. phase tk' = Settled (Some r) \<and> status r = ''error''
                   \<and> number r = number_of (numberObj (tasks v ! t)))
         else phase tk' = AwaitDelay (100 * (retries (tasks v ! t) + 1))"
      by blast
    have n: "numberObj tk' = numberObj (tasks v ! t)" using m by (simp add: task_move_def)
    have "task_ok (maxRetries v) tk'" if "pre_attempt (maxRetries v) (tasks v ! t)"
    proof (cases "retries (tasks v ! t) + 1 \<ge> maxRetries v")
      case True
      with p obtain r where "phase tk' = Settled (Some r)" "status r = ''error''"
        "number r = number_of (numberObj (tasks v ! t))" by auto
      then show ?thesis
        using that Obj c n by (simp add: task_ok_def pre_attempt_def)
    next
      case False
      with p have "phase tk' = AwaitDelay (100 * (retries (tasks v ! t) + 1))" by simp
      then show ?thesis
        using that Obj c n r False by (simp add: task_ok_def pre_attempt_def)
    qed
    with m a show ?thesis by auto
  qed
qed

lemma DelayFires_move:
  assumes "step v (DelayFires t) = Some v'"
  shows "\<exists>tk'. task_move v t tk' v' \<and> t < length (tasks v) \<and> \<not> isSettled v t
           \<and> (task_ok (maxRetries v) (tasks v ! t) \<longrightarrow> task_ok (maxRetries v) tk')"
proof -
  from assms have t: "t < length (tasks v)" by (simp split: if_splits)
  from assms t obtain ms where d: "phase (tasks v ! t) = AwaitDelay ms"
    by (cases "phase (tasks v ! t)") simp_all
  from assms t d have v': "v' = attempt t v" by simp
  have ns: "\<not> isSettled v t" using d by (simp add: isSettled_def)
  from attempt_move [of v t] obtain tk' where
    "task_move v t tk' (attempt t v)"
    "pre_attempt (maxRetries v) (tasks v ! t) \<longrightarrow> task_ok (maxRetries v) tk'" by blast
  with task_ok_AwaitDelay_pre [OF _ d] t ns v' show ?thesis by blast
qed

lemma task_move_after_reply:
  assumes "task_move (v\<lparr>tasks := (tasks v)[t := tk1]\<rparr>) t tk' v'" and "t < length (tasks v)"
    and "owner tk1 = owner (tasks v ! t)" and "numberObj tk1 = numberObj (tasks v ! t)"
  shows "task_move v t tk' v'"
  using assms by (simp add: task_move_def)

lemma CheckSettles_move:
  assumes "step v (CheckSettles t reply) = Some v'"
  shows "\<exists>tk'. task_move v t tk' v' \<and> t < length (tasks v) \<and> \<not> isSettled v t
           \<and> (task_ok (maxRetries v) (tasks v ! t) \<longrightarrow> task_ok (maxRetries v) tk')"
proof -
  from assms have t: "t < length (tasks v)" by (simp split: if_splits)
  from assms t obtain wid where d: "phase (tasks v ! t) = AwaitCheck wid"
    by (cases "phase (tasks v ! t)") simp_all
  have ns: "\<not> isSettled v t" using d by (simp add: isSettled_def)
  let ?tk1 = "(tasks v ! t)\<lparr>checks := checks (tasks v ! t) @ [reply]\<rparr>"
  let ?v1 = "v\<lparr>tasks := (tasks v)[t := ?tk1]\<rparr>"
  have at: "tasks ?v1 ! t = ?tk1" using t by simp
  show ?thesis
  proof (cases reply)
    case (Resolves b)
    with assms t d have v': "v' = succeed t wid b ?v1" by simp
    let ?r = "\<lparr>number = number_of (numberObj ?tk1), whatsapp_id = wid,
        is_registered = b, has_profile_pic = None, about = None,
        status = ''success'', error = None,
        session_id = Some (id_s (whatsappSessions ?v1 ! owner ?tk1))\<rparr>"
    let ?tk' = "?tk1\<lparr>phase := Settled (Some ?r)\<rparr>"
    from succeed_move [of ?v1 t wid b] have "task_move ?v1 t ?tk' v'"
      unfolding v' at by simp
    then have m: "task_move v t ?tk' v'"
      by (rule task_move_after_reply) (use t in simp_all)
    have "task_ok (maxRetries v) ?tk'" if "task_ok (maxRetries v) (tasks v ! t)"
      using that d Resolves by (simp add: task_ok_def)
    with m t ns show ?thesis by blast
  next
    case (Rejects message)
    with assms t d have v': "v' = catchError t message ?v1" by simp
    from catchError_move [of ?v1 t message] obtain tk' where
      m1: "task_move ?v1 t tk' v'"
      and c: "checks tk' = checks ?tk1" and r: "retries tk' = retries ?tk1 + 1"
      and p: "if retries ?tk1 + 1 \<ge> maxRetries v
         then (\<exists>r. phase tk' = Settled (Some r) \<and> status r = ''error''
                   \<and> number r = number_of (numberObj ?tk1))
         else phase tk' = AwaitDelay (100 * (retries ?tk1 + 1))"
      unfolding v' at by auto
    from m1 have m: "task_move v t tk' v'"
      by (rule task_move_after_reply) (use t in simp_all)
    have n: "numberObj tk' = numberObj (tasks v ! t)" using m by (simp add: task_move_def)
    have "task_ok (maxRetries v) tk'" if ok: "task_ok (maxRetries v) (tasks v ! t)"
    proof -
      from ok d have o: "retries (tasks v ! t) < maxRetries v" "list_all rejected (checks (tasks v ! t))"
        "length (checks (tasks v ! t)) = retries (tasks v ! t)"
        and "\<exists>n. number_of (numberObj (tasks v ! t)) = Str n"
        by (simp_all add: task_ok_def)
      then obtain n' where s: "number_of (numberObj (tasks v ! t)) = Str n'" by blast
      show ?thesis
      proof (cases "retries (tasks v ! t) + 1 \<ge> maxRetries v")
        case True
        with p obtain r' where "phase tk' = Settled (Some r')" "status r' = ''error''"
          "number r' = number_of (numberObj (tasks v ! t))" by auto
        then show ?thesis
          using o c n Rejects by (simp add: task_ok_def)
      next
        case False
        with p have "phase tk' = AwaitDelay (100 * (retries (tasks v ! t) + 1))" by simp
        then show ?thesis
          using o c n r s False Rejects by (simp add: task_ok_def)
      qed
    qed
    with m t ns show ?thesis by blast
  qed
qed

lemma processNumber_spawn:
  "\<exists>tk'. tasks (processNumber s num v) = tasks v @ [tk']
     \<and> owner tk' = s \<and> numberObj tk' = num \<and> task_ok (maxRetries v) tk'
     \<and> workers (processNumber s num v) = workers v
     \<and> workQueue (processNumber s num v) = workQueue v
     \<and> maxRetries (processNumber s num v) = maxRetries v
     \<and> concurrentPerSession (processNumber s num v) = concurrentPerSession v
     \<and> results (processNumber s num v) = results v @ committed_of tk'
     \<and> (committed_of tk' = [] \<longrightarrow> processing (processNumber s num v) = processing v)
     \<and> set (processing (processNumber s num v)) \<subseteq> set (processing v)"
proof -
  let ?tk0 = "\<lparr>owner = s, numberObj = num, retries = 0, phase = Settled None, checks = []\<rparr>"
  let ?v0 = "v\<lparr>tasks := tasks v @ [?tk0]\<rparr>"
  have at: "tasks ?v0 ! length (tasks v) = ?tk0" by simp
  have pre: "pre_attempt (maxRetries ?v0) (tasks ?v0 ! length (tasks v))"
    unfolding at by (simp add: pre_attempt_def split: jsval.split)
  from attempt_move [of ?v0 "length (tasks v)"] pre obtain tk' where
    m: "task_move ?v0 (length (tasks v)) tk' (attempt (length (tasks v)) ?v0)"
    and ok: "task_ok (maxRetries v) tk'" by auto
  have "tasks (processNumber s num v) = tasks v @ [tk']"
    using m by (simp add: task_move_def processNumber_def)
  with m ok show ?thesis
    by (intro exI [of _ tk']) (simp add: task_move_def processNumber_def)
qed

lemma committed_append [simp]: "committed (ts @ [tk]) = committed ts @ committed_of tk"
  by (simp add: committed_def)

lemma committed_Nil [simp]: "committed [] = []"
  by (simp add: committed_def)

lemma committed_update:
  "t < length ts \<Longrightarrow> committed_of (ts ! t) = [] \<Longrightarrow>
   mset (committed (ts[t := tk'])) = mset (committed ts) + mset (committed_of tk')"
proof (induction ts arbitrary: t)
  case Nil
  then show ?case by simp
next
  case (Cons a ts)
  show ?case
  proof (cases t)
    case 0
    with Cons.prems show ?thesis by (simp add: committed_def)
  next
    case (Suc j)
    with Cons.prems have "j < length ts" "committed_of (ts ! j) = []" by simp_all
    from Cons.IH [OF this] Suc show ?thesis by (simp add: committed_def)
  qed
qed

lemma unsettled_committed: "\<not> isSettled v t \<Longrightarrow> committed_of (tasks v ! t) = []"
  by (simp add: isSettled_def committed_of_def split: phase.splits)

lemma isSettled_cong: "tasks v' ! t = tasks v ! t \<Longrightarrow> isSettled v' t = isSettled v t"
  by (simp add: isSettled_def)

lemma task_ok_unsettled_pos:
  "task_ok R tk \<Longrightarrow> (\<forall>r. phase tk \<noteq> Settled r) \<Longrightarrow> 0 < R"
  by (cases "phase tk") (auto simp add: task_ok_def)

lemma inv_task_move:
  assumes i: "inv numbers sessions v" and m: "task_move v t tk' v'" and t: "t < length (tasks v)"
    and ns: "\<not> isSettled v t"
    and ok: "task_ok (maxRetries v) (tasks v ! t) \<longrightarrow> task_ok (maxRetries v) tk'"
  shows "inv numbers sessions v'"
proof -
  from m have ts: "tasks v' = (tasks v)[t := tk']" and ow: "owner tk' = owner (tasks v ! t)"
    and no: "numberObj tk' = numberObj (tasks v ! t)" and ws: "workers v' = workers v"
    and wq: "workQueue v' = workQueue v" and mr: "maxRetries v' = maxRetries v"
    and rs: "results v' = results v @ committed_of tk'"
    by (simp_all add: task_move_def)
  from i have a: "tasks_ok v" and b: "items_kept numbers v" and c: "results_kept v"
    and d: "owned v" and e: "in_range v" and f: "returned_ok v" and g: "drained v" and h: "stuck sessions v"
    by (simp_all add: inv_def)
  have old: "task_ok (maxRetries v) (tasks v ! t)"
    using a t by (simp add: tasks_ok_def)
  have pos: "0 < maxRetries v"
  proof (rule task_ok_unsettled_pos [OF old])
    show "\<forall>r. phase (tasks v ! t) \<noteq> Settled r" using ns by (auto simp add: isSettled_def)
  qed
  have same: "tasks v' ! u = tasks v ! u" if "u \<noteq> t" for u
    using that ts by simp
  have settled_mono: "isSettled v' u" if "isSettled v u" "u < length (tasks v)" for u
  proof -
    from that ns have "u \<noteq> t" by auto
    then show ?thesis using that(1) by (simp add: isSettled_cong [OF same])
  qed
  have a': "tasks_ok v'"
    unfolding tasks_ok_def mr ts
  proof
    fix tk assume "tk \<in> set ((tasks v)[t := tk'])"
    then have "tk = tk' \<or> tk \<in> set (tasks v)"
      using set_update_subset_insert [of "tasks v" t tk'] by auto
    then show "task_ok (maxRetries v) tk"
      using ok old a by (auto simp add: tasks_ok_def)
  qed
  have "map numberObj ((tasks v)[t := tk']) = (map numberObj (tasks v))[t := map numberObj (tasks v) ! t]"
    using no t by (simp add: map_update)
  then have "map numberObj ((tasks v)[t := tk']) = map numberObj (tasks v)"
    by (simp only: list_update_id)
  then have b': "items_kept numbers v'"
    using b by (simp add: items_kept_def ts wq)
  have c': "results_kept v'"
    using c committed_update [OF t unsettled_committed [OF ns], of tk']
    by (simp add: results_kept_def ts rs)
  have d': "owned v'"
    unfolding owned_def
  proof (intro allI impI)
    fix u assume u: "u < length (tasks v')" and nu: "\<not> isSettled v' u"
    from u have u': "u < length (tasks v)" by (simp add: ts)
    have o: "owner (tasks v' ! u) = owner (tasks v ! u)"
      using ow t by (cases "u = t") (simp_all add: ts)
    from nu settled_mono [OF _ u'] have "\<not> isSettled v u" by blast
    with d u' have "owner (tasks v ! u) < length (workers v)
        \<and> u \<in> set (concurrentTasks (workers v ! owner (tasks v ! u)))"
      by (simp add: owned_def)
    then show "owner (tasks v' ! u) < length (workers v')
        \<and> u \<in> set (concurrentTasks (workers v' ! owner (tasks v' ! u)))"
      by (simp add: o ws)
  qed
  have e': "in_range v'"
    using e by (simp add: in_range_def ws ts)
  have f': "returned_ok v'"
    unfolding returned_ok_def ws
  proof (intro ballI impI)
    fix w u assume w: "w \<in> set (workers v)" "pc w = Returned" and u: "u \<in> set (concurrentTasks w)"
    from f w u have "isSettled v u" by (simp add: returned_ok_def)
    moreover from e w u have "u < length (tasks v)" by (simp add: in_range_def)
    ultimately show "isSettled v' u" by (rule settled_mono)
  qed
  have g': "drained v'"
    using g by (simp add: drained_def ws wq)
  have h': "stuck sessions v'"
    using pos by (simp add: stuck_def mr)
  show ?thesis
    using a' b' c' d' e' f' g' h' by (simp add: inv_def)
qed

lemma processNumber_zero:
  "maxRetries v = 0 \<Longrightarrow>
   processNumber s num v =
     v\<lparr>tasks := tasks v @ [\<lparr>owner = s, numberObj = num, retries = 0, phase = Settled None, checks = []\<rparr>]\<rparr>"
  by (simp add: processNumber_def attempt_def)

lemma fill_Cons:
  "fill w (num # queue) v =
     (if length (concurrentTasks (workers v ! w)) < concurrentPerSession v
      then fill w queue (if truthy num then spawn w num queue v else v\<lparr>workQueue := queue\<rparr>)
      else v)"
  by simp

lemma inv_skip:
  assumes "inv numbers sessions v" and "workQueue v = num # queue" and "\<not> truthy num"
  shows "inv numbers sessions (v\<lparr>workQueue := queue\<rparr>)"
proof -
  have no_exit: "\<not> (\<exists>w \<in> set (workers v). exited w)"
    using assms(1,2) by (auto simp add: inv_def drained_def)
  show ?thesis
    using assms no_exit
    by (simp add: inv_def tasks_ok_def items_kept_def results_kept_def owned_def in_range_def
        returned_ok_def drained_def stuck_def isSettled_def)
qed

lemma inv_spawn:
  assumes i: "inv numbers sessions v" and q: "workQueue v = num # queue" and tr: "truthy num"
    and w: "w < length (workers v)"
  shows "inv numbers sessions (spawn w num queue v)"
    and "workQueue (spawn w num queue v) = queue"
    and "map pc (workers (spawn w num queue v)) = map pc (workers v)"
    and "maxRetries (spawn w num queue v) = maxRetries v"
    and "concurrentPerSession (spawn w num queue v) = concurrentPerSession v"
proof -
  let ?va = "v\<lparr>workQueue := queue, processing := set_add num (processing v)\<rparr>"
  let ?v1 = "processNumber w num ?va"
  let ?n = "length (tasks v)"
  let ?v2 = "spawn w num queue v"
  from processNumber_spawn [of w num ?va] obtain tk' where
    ts1: "tasks ?v1 = tasks v @ [tk']" and ow: "owner tk' = w" and no: "numberObj tk' = num"
    and ok: "task_ok (maxRetries v) tk'" and ws1: "workers ?v1 = workers v"
    and wq1: "workQueue ?v1 = queue" and mr1: "maxRetries ?v1 = maxRetries v"
    and cp1: "concurrentPerSession ?v1 = concurrentPerSession v"
    and rs1: "results ?v1 = results v @ committed_of tk'"
    by auto
  let ?ww = "(workers v ! w)\<lparr>concurrentTasks := concurrentTasks (workers v ! w) @ [?n]\<rparr>"
  have ts: "tasks ?v2 = tasks v @ [tk']" by (simp add: spawn_def Let_def ts1)
  have ws: "workers ?v2 = (workers v)[w := ?ww]" by (simp add: spawn_def Let_def ws1)
  have wq: "workQueue ?v2 = queue" by (simp add: spawn_def Let_def wq1)
  have mr: "maxRetries ?v2 = maxRetries v" by (simp add: spawn_def Let_def mr1)
  have rs: "results ?v2 = results v @ committed_of tk'" by (simp add: spawn_def Let_def rs1)
  show "workQueue ?v2 = queue" by (rule wq)
  show "maxRetries ?v2 = maxRetries v" by (rule mr)
  show "concurrentPerSession ?v2 = concurrentPerSession v" by (simp add: spawn_def Let_def cp1)
  have pcs: "map pc ((workers v)[w := ?ww]) = map pc (workers v)"
  proof -
    have "map pc ((workers v)[w := ?ww]) = (map pc (workers v))[w := map pc (workers v) ! w]"
      using w by (simp add: map_update)
    then show ?thesis by (simp only: list_update_id)
  qed
  show "map pc (workers ?v2) = map pc (workers v)" by (simp add: ws pcs)
  from i have a: "tasks_ok v" and b: "items_kept numbers v" and c: "results_kept v"
    and d: "owned v" and e: "in_range v" and f: "returned_ok v" and g: "drained v" and h: "stuck sessions v"
    by (simp_all add: inv_def)
  have no_exit: "\<not> exited x" if "x \<in> set (workers v)" for x
    using g q that by (auto simp add: drained_def)
  have wset: "x \<in> set (workers ?v2) \<Longrightarrow> x = ?ww \<or> x \<in> set (workers v)" for x
    using set_update_subset_insert [of "workers v" w ?ww] by (auto simp add: ws)
  have wexit: "\<not> exited x" if "x \<in> set (workers ?v2)" for x
  proof -
    from wset [OF that] show ?thesis
    proof
      assume "x = ?ww"
      moreover have "\<not> exited (workers v ! w)" using no_exit w by simp
      ultimately show ?thesis by (simp add: exited_def)
    next
      assume "x \<in> set (workers v)"
      then show ?thesis by (rule no_exit)
    qed
  qed
  have old: "tasks ?v2 ! u = tasks v ! u" if "u < ?n" for u
    using that by (simp add: ts nth_append)
  have a': "tasks_ok ?v2"
    using a ok by (auto simp add: tasks_ok_def ts mr)
  have b': "items_kept numbers ?v2"
    using b q tr no by (simp add: items_kept_def ts wq)
  have c': "results_kept ?v2"
    using c by (simp add: results_kept_def ts rs)
  have d': "owned ?v2"
    unfolding owned_def
  proof (intro allI impI)
    fix u assume u: "u < length (tasks ?v2)" and nu: "\<not> isSettled ?v2 u"
    show "owner (tasks ?v2 ! u) < length (workers ?v2)
        \<and> u \<in> set (concurrentTasks (workers ?v2 ! owner (tasks ?v2 ! u)))"
    proof (cases "u < ?n")
      case True
      from nu have "\<not> isSettled v u" by (simp add: isSettled_cong [OF old [OF True]])
      with d True have o: "owner (tasks v ! u) < length (workers v)"
        and m: "u \<in> set (concurrentTasks (workers v ! owner (tasks v ! u)))"
        by (simp_all add: owned_def)
      show ?thesis
        using o m w by (cases "owner (tasks v ! u) = w") (simp_all add: old [OF True] ws)
    next
      case False
      with u have "u = ?n" by (simp add: ts)
      then show ?thesis using w ow by (simp add: ts ws)
    qed
  qed
  have e': "in_range ?v2"
    unfolding in_range_def
  proof (intro ballI)
    fix x u assume x: "x \<in> set (workers ?v2)" and u: "u \<in> set (concurrentTasks x)"
    from wset [OF x] show "u < length (tasks ?v2)"
    proof
      assume "x = ?ww"
      with u have "u = ?n \<or> u \<in> set (concurrentTasks (workers v ! w))" by auto
      moreover have "workers v ! w \<in> set (workers v)" using w by simp
      with e have "\<forall>t \<in> set (concurrentTasks (workers v ! w)). t < ?n"
        unfolding in_range_def by blast
      ultimately show ?thesis by (auto simp add: ts less_Suc_eq)
    next
      assume "x \<in> set (workers v)"
      with e u have "u < ?n" unfolding in_range_def by blast
      then show ?thesis by (simp add: ts)
    qed
  qed
  have f': "returned_ok ?v2"
    unfolding returned_ok_def
  proof (intro ballI impI)
    fix x u assume x: "x \<in> set (workers ?v2)" and "pc x = Returned"
    then have "exited x" by (simp add: exited_def)
    with wexit [OF x] show "isSettled ?v2 u" by simp
  qed
  have g': "drained ?v2"
    using wexit by (auto simp add: drained_def)
  have h': "stuck sessions ?v2"
  proof (cases "maxRetries v = 0")
    case False
    then show ?thesis by (simp add: stuck_def mr)
  next
    case z0: True
    then have za: "maxRetries ?va = 0" by simp
    have v2: "?v2 = ?va\<lparr>tasks := tasks v @ [\<lparr>owner = w, numberObj = num, retries = 0,
                                              phase = Settled None, checks = []\<rparr>],
                        workers := (workers v)[w := ?ww]\<rparr>"
      by (simp add: spawn_def processNumber_zero [OF za])
    from h z0 have hp: "\<forall>tk \<in> set (tasks v). numberObj tk \<in> set (processing v)
          \<and> phase tk = Settled None \<and> checks tk = []"
      and hr: "results v = []" "stats_processed v = 0" "stats_verified v = 0" "stats_errors v = 0"
        "whatsappSessions v = sessions"
      by (simp_all add: stuck_def)
    have p1: "\<forall>tk \<in> set (tasks ?v2). numberObj tk \<in> set (processing ?v2)
          \<and> phase tk = Settled None \<and> checks tk = []"
      using hp by (auto simp add: v2 set_add_def)
    have p2: "(\<exists>x \<in> set (workers ?v2). exited x) \<longrightarrow> tasks ?v2 = []"
      using wexit by blast
    have p3: "results ?v2 = []" "stats_processed ?v2 = 0" "stats_verified ?v2 = 0" "stats_errors ?v2 = 0"
      "whatsappSessions ?v2 = sessions"
      using hr by (simp_all add: v2)
    show ?thesis
      unfolding stuck_def using p1 p2 p3 by blast
  qed
  show "inv numbers sessions ?v2"
    using a' b' c' d' e' f' g' h' by (simp add: inv_def)
qed

lemma inv_fill:
  assumes "inv numbers sessions v" and "workQueue v = q" and "w < length (workers v)"
  shows "inv numbers sessions (fill w q v) \<and> map pc (workers (fill w q v)) = map pc (workers v)
         \<and> maxRetries (fill w q v) = maxRetries v"
  using assms
proof (induction q arbitrary: v)
  case Nil
  then show ?case by simp
next
  case (Cons num queue)
  show ?case
  proof (cases "length (concurrentTasks (workers v ! w)) < concurrentPerSession v")
    case False
    with Cons.prems show ?thesis by simp
  next
    case room: True
    show ?thesis
    proof (cases "truthy num")
      case True
      note s = inv_spawn [OF Cons.prems(1,2) True Cons.prems(3)]
      have "length (map pc (workers (spawn w num queue v))) = length (map pc (workers v))"
        by (simp only: s(3))
      then have w': "w < length (workers (spawn w num queue v))"
        using Cons.prems(3) by simp
      from Cons.IH [OF s(1,2) w'] s(3,4) room True show ?thesis
        by simp
    next
      case False
      note k = inv_skip [OF Cons.prems(1,2) False]
      from Cons.IH [OF k] Cons.prems(3) room False show ?thesis
        by simp
    qed
  qed
qed

lemma goto_fields [simp]:
  "tasks (goto w l v) = tasks v" "results (goto w l v) = results v"
  "workQueue (goto w l v) = workQueue v" "processing (goto w l v) = processing v"
  "maxRetries (goto w l v) = maxRetries v"
  "stats_processed (goto w l v) = stats_processed v" "stats_verified (goto w l v) = stats_verified v"
  "stats_errors (goto w l v) = stats_errors v" "whatsappSessions (goto w l v) = whatsappSessions v"
  "workers (goto w l v) = (workers v)[w := (workers v ! w)\<lparr>pc := l\<rparr>]"
  "isSettled (goto w l v) t = isSettled v t"
  by (simp_all add: goto_def isSettled_def)

lemma inv_goto:
  assumes i: "inv numbers sessions v" and w: "w < length (workers v)"
    and ret: "l = Returned \<longrightarrow> (\<forall>t \<in> set (concurrentTasks (workers v ! w)). isSettled v t)"
    and ex: "l = FinalWait \<or> l = Returned \<longrightarrow> workQueue v = [] \<and> (maxRetries v = 0 \<longrightarrow> tasks v = [])"
  shows "inv numbers sessions (goto w l v)"
proof -
  let ?ww = "(workers v ! w)\<lparr>pc := l\<rparr>"
  from i have a: "tasks_ok v" and b: "items_kept numbers v" and c: "results_kept v"
    and d: "owned v" and e: "in_range v" and f: "returned_ok v" and g: "drained v" and h: "stuck sessions v"
    by (simp_all add: inv_def)
  have wset: "x \<in> set ((workers v)[w := ?ww]) \<Longrightarrow> x = ?ww \<or> x \<in> set (workers v)" for x
    using set_update_subset_insert [of "workers v" w ?ww] by auto
  have wmem: "workers v ! w \<in> set (workers v)" using w by simp
  have cts: "concurrentTasks ((workers v)[w := ?ww] ! o') = concurrentTasks (workers v ! o')"
    if "o' < length (workers v)" for o'
    using that by (cases "o' = w") simp_all
  have a': "tasks_ok (goto w l v)" using a by (simp add: tasks_ok_def)
  have b': "items_kept numbers (goto w l v)" using b by (simp add: items_kept_def)
  have c': "results_kept (goto w l v)" using c by (simp add: results_kept_def)
  have d': "owned (goto w l v)"
    using d cts by (simp add: owned_def)
  have e': "in_range (goto w l v)"
    unfolding in_range_def
  proof (intro ballI)
    fix x u assume x: "x \<in> set (workers (goto w l v))" and u: "u \<in> set (concurrentTasks x)"
    from x wset have "x = ?ww \<or> x \<in> set (workers v)" by simp
    then have "\<exists>y \<in> set (workers v). u \<in> set (concurrentTasks y)"
      using u wmem by auto
    with e show "u < length (tasks (goto w l v))" by (auto simp add: in_range_def)
  qed
  have f': "returned_ok (goto w l v)"
    unfolding returned_ok_def
  proof (intro ballI impI)
    fix x u assume x: "x \<in> set (workers (goto w l v))" and r: "pc x = Returned"
      and u: "u \<in> set (concurrentTasks x)"
    from x wset have "x = ?ww \<or> x \<in> set (workers v)" by simp
    then show "isSettled (goto w l v) u"
    proof
      assume "x = ?ww"
      with r u ret show ?thesis by simp
    next
      assume "x \<in> set (workers v)"
      with f r u show ?thesis by (simp add: returned_ok_def)
    qed
  qed
  have exits: "workQueue v = [] \<and> (maxRetries v = 0 \<longrightarrow> tasks v = [])"
    if "\<exists>x \<in> set (workers (goto w l v)). exited x"
  proof -
    from that obtain x where x: "x \<in> set (workers (goto w l v))" and xe: "exited x" by blast
    from x wset have "x = ?ww \<or> x \<in> set (workers v)" by simp
    then show ?thesis
    proof
      assume "x = ?ww"
      with xe ex show ?thesis by (simp add: exited_def)
    next
      assume "x \<in> set (workers v)"
      with xe g h show ?thesis by (auto simp add: drained_def stuck_def)
    qed
  qed
  have g': "drained (goto w l v)"
    using exits by (simp add: drained_def)
  have h': "stuck sessions (goto w l v)"
    using h exits by (simp add: stuck_def)
  show ?thesis
    using a' b' c' d' e' f' g' h' by (simp add: inv_def)
qed

lemma inv_throttle: "inv numbers sessions v \<Longrightarrow> w < length (workers v) \<Longrightarrow> inv numbers sessions (throttle w v)"
  unfolding throttle_def by (rule inv_goto) auto

lemma in_set_remove_nth:
  "t \<in> set cts \<Longrightarrow> (i < length cts \<longrightarrow> t \<noteq> cts ! i) \<Longrightarrow> t \<in> set (take i cts @ drop (Suc i) cts)"
proof (cases "i < length cts")
  case True
  assume t: "t \<in> set cts" and n: "i < length cts \<longrightarrow> t \<noteq> cts ! i"
  have "cts = take i cts @ cts ! i # drop (Suc i) cts"
    using True by (rule id_take_nth_drop)
  then have "set cts = set (take i cts @ cts ! i # drop (Suc i) cts)"
    by simp
  then have "set cts = set (take i cts) \<union> {cts ! i} \<union> set (drop (Suc i) cts)"
    by (simp only: set_append list.set) auto
  with t n True show ?thesis by auto
next
  case False
  assume "t \<in> set cts"
  with False show ?thesis by simp
qed

lemma inv_remove:
  assumes i: "inv numbers sessions v" and w: "w < length (workers v)"
    and s: "isSettled v (concurrentTasks (workers v ! w) ! k)"
  shows "inv numbers sessions (v\<lparr>workers := (workers v)
            [w := (workers v ! w)\<lparr>concurrentTasks :=
                 take k (concurrentTasks (workers v ! w)) @ drop (Suc k) (concurrentTasks (workers v ! w))\<rparr>]\<rparr>)"
    (is "inv numbers sessions ?v'")
proof -
  let ?cts = "concurrentTasks (workers v ! w)"
  let ?ww = "(workers v ! w)\<lparr>concurrentTasks := take k ?cts @ drop (Suc k) ?cts\<rparr>"
  from i have a: "tasks_ok v" and b: "items_kept numbers v" and c: "results_kept v"
    and d: "owned v" and e: "in_range v" and f: "returned_ok v" and g: "drained v" and h: "stuck sessions v"
    by (simp_all add: inv_def)
  have wset: "x \<in> set ((workers v)[w := ?ww]) \<Longrightarrow> x = ?ww \<or> x \<in> set (workers v)" for x
    using set_update_subset_insert [of "workers v" w ?ww] by auto
  have wmem: "workers v ! w \<in> set (workers v)" using w by simp
  have sub: "set (take k ?cts @ drop (Suc k) ?cts) \<subseteq> set ?cts"
    using set_take_subset [of k ?cts] set_drop_subset [of "Suc k" ?cts] by auto
  have st: "isSettled ?v' u = isSettled v u" for u by (simp add: isSettled_def)
  have older: "\<exists>y \<in> set (workers v). pc y = pc x \<and> set (concurrentTasks x) \<subseteq> set (concurrentTasks y)"
    if "x \<in> set (workers ?v')" for x
  proof -
    from that wset have "x = ?ww \<or> x \<in> set (workers v)" by simp
    then show ?thesis
    proof
      assume "x = ?ww"
      then show ?thesis using wmem sub by (intro bexI [of _ "workers v ! w"]) simp_all
    next
      assume "x \<in> set (workers v)"
      then show ?thesis by blast
    qed
  qed
  have a': "tasks_ok ?v'" using a by (simp add: tasks_ok_def)
  have b': "items_kept numbers ?v'" using b by (simp add: items_kept_def)
  have c': "results_kept ?v'" using c by (simp add: results_kept_def)
  have d': "owned ?v'"
    unfolding owned_def
  proof (intro allI impI)
    fix u assume u: "u < length (tasks ?v')" and nu: "\<not> isSettled ?v' u"
    from nu have nu': "\<not> isSettled v u" by (simp add: st)
    with d u have o: "owner (tasks v ! u) < length (workers v)"
      and m: "u \<in> set (concurrentTasks (workers v ! owner (tasks v ! u)))"
      by (simp_all add: owned_def)
    show "owner (tasks ?v' ! u) < length (workers ?v')
        \<and> u \<in> set (concurrentTasks (workers ?v' ! owner (tasks ?v' ! u)))"
    proof (cases "owner (tasks v ! u) = w")
      case True
      have "k < length ?cts \<longrightarrow> u \<noteq> ?cts ! k" using s nu' by auto
      with m True have "u \<in> set (take k ?cts @ drop (Suc k) ?cts)"
        by (intro in_set_remove_nth) simp_all
      then show ?thesis using True w by simp
    next
      case False
      then show ?thesis using o m by simp
    qed
  qed
  have e': "in_range ?v'"
    unfolding in_range_def
  proof (intro ballI)
    fix x u assume x: "x \<in> set (workers ?v')" and u: "u \<in> set (concurrentTasks x)"
    from older [OF x] u obtain y where "y \<in> set (workers v)" "u \<in> set (concurrentTasks y)" by blast
    with e show "u < length (tasks ?v')" by (auto simp add: in_range_def)
  qed
  have f': "returned_ok ?v'"
    unfolding returned_ok_def
  proof (intro ballI impI)
    fix x u assume x: "x \<in> set (workers ?v')" and r: "pc x = Returned"
      and u: "u \<in> set (concurrentTasks x)"
    from older [OF x] u r obtain y where "y \<in> set (workers v)" "pc y = Returned"
      "u \<in> set (concurrentTasks y)" by auto
    with f show "isSettled ?v' u" by (simp add: returned_ok_def st)
  qed
  have exits: "\<exists>y \<in> set (workers v). exited y" if "\<exists>x \<in> set (workers ?v'). exited x"
  proof -
    from that obtain x where x: "x \<in> set (workers ?v')" and xe: "exited x" by blast
    from older [OF x] xe show ?thesis by (auto simp add: exited_def)
  qed
  have g': "drained ?v'"
    using g exits by (simp add: drained_def)
  have h': "stuck sessions ?v'"
    using h exits by (simp add: stuck_def)
  show ?thesis
    using a' b' c' d' e' f' g' h' by (simp add: inv_def)
qed

lemma stuck_no_tasks:
  assumes "stuck sessions v" and "maxRetries v = 0" and "processing v = []"
  shows "tasks v = []"
proof (cases "tasks v")
  case Nil
  then show ?thesis .
next
  case (Cons tk ts)
  then have "tk \<in> set (tasks v)" by simp
  with assms show ?thesis by (auto simp add: stuck_def)
qed

lemma inv_sessionWorker:
  assumes i: "inv numbers sessions v" and w: "w < length (workers v)" and s: "sessionWorker w v = Some v'"
  shows "inv numbers sessions v'"
proof -
  let ?cts = "concurrentTasks (workers v ! w)"
  have wmem: "workers v ! w \<in> set (workers v)" using w by simp
  from i have g: "drained v" and h: "stuck sessions v" by (simp_all add: inv_def)
  show ?thesis
  proof (cases "pc (workers v ! w)")
    case LoopHead
    show ?thesis
    proof (cases "workQueue v \<noteq> [] \<or> processing v \<noteq> []")
      case True
      let ?v1 = "fill w (workQueue v) v"
      from inv_fill [OF i refl w] have i1: "inv numbers sessions ?v1"
        and p1: "map pc (workers ?v1) = map pc (workers v)" by simp_all
      have "length (map pc (workers ?v1)) = length (map pc (workers v))" by (simp only: p1)
      then have w1: "w < length (workers ?v1)" using w by simp
      from s LoopHead True have "v' = goto w AwaitRace ?v1 \<or> v' = goto w AwaitIdle ?v1
          \<or> v' = throttle w ?v1"
        by (auto simp add: sessionWorker_def Let_def split: if_splits)
      moreover have "inv numbers sessions (goto w AwaitRace ?v1)" by (rule inv_goto [OF i1 w1]) simp_all
      moreover have "inv numbers sessions (goto w AwaitIdle ?v1)" by (rule inv_goto [OF i1 w1]) simp_all
      moreover have "inv numbers sessions (throttle w ?v1)" by (rule inv_throttle [OF i1 w1])
      ultimately show ?thesis by auto
    next
      case False
      then have q: "workQueue v = []" and p: "processing v = []" by simp_all
      have z: "maxRetries v = 0 \<longrightarrow> tasks v = []"
        using stuck_no_tasks [OF h _ p] by blast
      show ?thesis
      proof (cases "?cts \<noteq> []")
        case True
        with s LoopHead False have "v' = goto w FinalWait v"
          by (simp add: sessionWorker_def Let_def)
        moreover have "inv numbers sessions (goto w FinalWait v)"
          by (rule inv_goto [OF i w]) (use q z in simp_all)
        ultimately show ?thesis by simp
      next
        case empty: False
        with s LoopHead False have "v' = goto w Returned v"
          by (simp add: sessionWorker_def Let_def)
        moreover have "inv numbers sessions (goto w Returned v)"
          by (rule inv_goto [OF i w]) (use q z empty in simp_all)
        ultimately show ?thesis by simp
      qed
    qed
  next
    case AwaitRace
    with s have "v' = goto w (Removing (length ?cts)) v"
      by (simp add: sessionWorker_def Let_def split: if_splits)
    moreover have "inv numbers sessions (goto w (Removing (length ?cts)) v)"
      by (rule inv_goto [OF i w]) simp_all
    ultimately show ?thesis by simp
  next
    case (Removing n)
    show ?thesis
    proof (cases n)
      case 0
      with s Removing have "v' = throttle w v" by (simp add: sessionWorker_def Let_def)
      then show ?thesis using inv_throttle [OF i w] by simp
    next
      case (Suc k)
      let ?vr = "v\<lparr>workers := (workers v)
            [w := (workers v ! w)\<lparr>concurrentTasks := take k ?cts @ drop (Suc k) ?cts\<rparr>]\<rparr>"
      show ?thesis
      proof (cases "isSettled v (?cts ! k)")
        case True
        with s Removing Suc have v': "v' = goto w (Removing k) ?vr"
          by (simp add: sessionWorker_def Let_def)
        have ir: "inv numbers sessions ?vr" by (rule inv_remove [OF i w True])
        have wr: "w < length (workers ?vr)" using w by simp
        show ?thesis unfolding v' by (rule inv_goto [OF ir wr]) simp_all
      next
        case False
        with s Removing Suc have v': "v' = goto w (Removing k) v"
          by (simp add: sessionWorker_def Let_def)
        show ?thesis unfolding v' by (rule inv_goto [OF i w]) simp_all
      qed
    qed
  next
    case AwaitIdle
    with s have "v' = throttle w v" by (simp add: sessionWorker_def Let_def)
    then show ?thesis using inv_throttle [OF i w] by simp
  next
    case AwaitThrottle
    with s have v': "v' = goto w LoopHead v" by (simp add: sessionWorker_def Let_def)
    show ?thesis unfolding v' by (rule inv_goto [OF i w]) simp_all
  next
    case FinalWait
    with s have v': "v' = goto w Returned v" and all: "list_all (isSettled v) ?cts"
      by (simp_all add: sessionWorker_def Let_def split: if_splits)
    have "exited (workers v ! w)" using FinalWait by (simp add: exited_def)
    with wmem have ex: "\<exists>x \<in> set (workers v). exited x" by blast
    with g have q: "workQueue v = []" by (simp add: drained_def)
    from ex h have z: "maxRetries v = 0 \<longrightarrow> tasks v = []" by (simp add: stuck_def)
    show ?thesis unfolding v'
      by (rule inv_goto [OF i w]) (use all q z in \<open>simp_all add: list_all_iff\<close>)
  next
    case Returned
    with s show ?thesis by (simp add: sessionWorker_def Let_def)
  qed
qed

lemma inv_step:
  assumes "inv numbers sessions v" and "step v e = Some v'"
  shows "inv numbers sessions v'"
proof (cases e)
  case (Worker w)
  with assms(2) have "w < length (workers v)" "sessionWorker w v = Some v'"
    by (simp_all split: if_splits)
  with assms(1) show ?thesis by (rule inv_sessionWorker)
next
  case (CheckSettles t reply)
  from CheckSettles_move [OF assms(2) [unfolded CheckSettles]] obtain tk' where
    "task_move v t tk' v'" "t < length (tasks v)" "\<not> isSettled v t"
    "task_ok (maxRetries v) (tasks v ! t) \<longrightarrow> task_ok (maxRetries v) tk'" by blast
  with assms(1) show ?thesis by (rule inv_task_move)
next
  case (DelayFires t)
  from DelayFires_move [OF assms(2) [unfolded DelayFires]] obtain tk' where
    "task_move v t tk' v'" "t < length (tasks v)" "\<not> isSettled v t"
    "task_ok (maxRetries v) (tasks v ! t) \<longrightarrow> task_ok (maxRetries v) tk'" by blast
  with assms(1) show ?thesis by (rule inv_task_move)
qed

lemma inv_run:
  assumes "inv numbers sessions v" and "run v es = Some v'"
  shows "inv numbers sessions v'"
  using assms
proof (induction es arbitrary: v)
  case Nil
  then show ?case by simp
next
  case (Cons e es)
  from Cons.prems(2) obtain u where u: "step v e = Some u" and r: "run u es = Some v'"
    by (auto split: option.splits)
  from Cons.IH [OF inv_step [OF Cons.prems(1) u] r] show ?case .
qed

lemma inv_validateBatch:
  "inv numbers sessions (validateBatch_optimized sessions perSession retryLimit numbers)"
  by (simp add: inv_def validateBatch_optimized_def tasks_ok_def items_kept_def results_kept_def
      owned_def in_range_def returned_ok_def drained_def stuck_def exited_def)

lemma step_maxRetries: "step v e = Some v' \<Longrightarrow> maxRetries v' = maxRetries v \<and> length (workers v') = length (workers v)"
proof (cases e)
  case (Worker w)
  assume s: "step v e = Some v'"
  with Worker have w: "w < length (workers v)" and sw: "sessionWorker w v = Some v'"
    by (simp_all split: if_splits)
  have f: "maxRetries (fill w q u) = maxRetries u \<and> length (workers (fill w q u)) = length (workers u)" for q u
  proof (induction q arbitrary: u)
    case Nil
    then show ?case by simp
  next
    case (Cons num queue)
    have sp: "maxRetries (spawn w num queue u) = maxRetries u
        \<and> length (workers (spawn w num queue u)) = length (workers u)"
      using processNumber_spawn [of w num "u\<lparr>workQueue := queue, processing := set_add num (processing u)\<rparr>"]
      by (auto simp add: spawn_def Let_def)
    show ?case
      using Cons [of "spawn w num queue u"] Cons [of "u\<lparr>workQueue := queue\<rparr>"] sp
      by simp
  qed
  from sw show ?thesis
    by (auto simp add: sessionWorker_def Let_def throttle_def goto_def f
        split: pc.splits if_splits nat.splits)
next
  case (CheckSettles t reply)
  assume "step v e = Some v'"
  from CheckSettles_move [OF this [unfolded CheckSettles]] show ?thesis
    by (auto simp add: task_move_def)
next
  case (DelayFires t)
  assume "step v e = Some v'"
  from DelayFires_move [OF this [unfolded DelayFires]] show ?thesis
    by (auto simp add: task_move_def)
qed

lemma run_maxRetries:
  "run v es = Some v' \<Longrightarrow> maxRetries v' = maxRetries v \<and> length (workers v') = length (workers v)"
proof (induction es arbitrary: v)
  case Nil
  then show ?case by simp
next
  case (Cons e es)
  from Cons.prems obtain u where u: "step v e = Some u" and r: "run u es = Some v'"
    by (auto split: option.splits)
  from Cons.IH [OF r] step_maxRetries [OF u] show ?case by simp
qed

lemma committed_all_settled:
  assumes "\<forall>tk \<in> set ts. \<exists>r. phase tk = Settled (Some r) \<and> number r = number_of (numberObj tk)"
  shows "map phase ts = map (\<lambda>r. Settled (Some r)) (committed ts)"
    and "map number (committed ts) = map (\<lambda>tk. number_of (numberObj tk)) ts"
  using assms by (induction ts) (auto simp add: committed_def committed_of_def)

lemma completed_all_settled:
  assumes i: "inv numbers sessions v" and c: "completed v" and w: "workers v \<noteq> []"
    and tk: "tk \<in> set (tasks v)"
  shows "\<exists>r. phase tk = Settled (Some r) \<and> task_ok (maxRetries v) tk"
proof -
  from i have a: "tasks_ok v" and d: "owned v" and f: "returned_ok v" and h: "stuck sessions v"
    by (simp_all add: inv_def)
  from c have ret: "pc x = Returned" if "x \<in> set (workers v)" for x
    using that by (simp add: completed_def list_all_iff)
  from tk obtain t where t: "t < length (tasks v)" and tkt: "tk = tasks v ! t"
    by (auto simp add: in_set_conv_nth)
  have ok: "task_ok (maxRetries v) tk" using a tk by (simp add: tasks_ok_def)
  have settled: "isSettled v t"
  proof (rule ccontr)
    assume n: "\<not> isSettled v t"
    with d t have o: "owner (tasks v ! t) < length (workers v)"
      and m: "t \<in> set (concurrentTasks (workers v ! owner (tasks v ! t)))"
      by (simp_all add: owned_def)
    from o have x: "workers v ! owner (tasks v ! t) \<in> set (workers v)" by simp
    from f x ret [OF x] m have "isSettled v t" by (simp add: returned_ok_def)
    with n show False by simp
  qed
  then obtain ro where ro: "phase tk = Settled ro"
    by (cases "phase tk") (simp_all add: isSettled_def tkt)
  show ?thesis
  proof (cases ro)
    case None
    with ro ok have z: "maxRetries v = 0" by (simp add: task_ok_def)
    from w have "hd (workers v) \<in> set (workers v)" by simp
    with ret have "\<exists>x \<in> set (workers v). exited x" by (auto simp add: exited_def)
    with h z have "tasks v = []" by (simp add: stuck_def)
    with tk show ?thesis by simp
  next
    case (Some r)
    with ro ok show ?thesis by simp
  qed
qed

text \<open>
  C1, as the claim states it, fails on two inputs. With one session and the list that
  holds the empty string, \<^verbatim>\<open>validateBatch\<close> completes with no result: the worker shifts
  the entry from the queue and \<^verbatim>\<open>if (number)\<close> skips it. With no session there is no
  worker, and \<^verbatim>\<open>validateBatch\<close> completes at once with no result for the number.
\<close>

theorem validateBatch_drops_falsy_items:
  "map_option (\<lambda>v. (completed v, results v))
     (run (validateBatch_optimized [newSession 0 0] 10 2 [Str '''']) [Worker 0, Worker 0])
     = Some (True, [])
   \<and> map_option (\<lambda>v. (completed v, results v))
       (run (validateBatch_optimized [] 10 2 [Str ''0791234567'']) [])
     = Some (True, [])"
  by code_simp

text \<open>
  C1, amended. For every list of numbers, every interleaving and every behaviour of the
  registration check: once \<^verbatim>\<open>validateBatch\<close> of a validator with at least one session
  reports completion, the results correspond one to one to the truthy entries of the
  list (row objects and non-empty strings). Each truthy entry was the argument of exactly
  one call of \<^verbatim>\<open>processNumber\<close>, each call has settled with one result, which carries
  the number of its entry, and these results are exactly the members of \<^verbatim>\<open>results\<close>. A
  call made at most \<^verbatim>\<open>maxRetries\<close> checks, and when all its checks threw its result has
  status "error".
\<close>

theorem validateBatch_one_result_per_item:
  assumes r: "run (validateBatch_optimized sessions perSession retryLimit numbers) es = Some v"
    and c: "completed v" and s: "sessions \<noteq> []"
  shows "mset (map number (results v)) = mset (map number_of (filter truthy numbers))
     \<and> mset (map numberObj (tasks v)) = mset (filter truthy numbers)
     \<and> mset (map phase (tasks v)) = mset (map (\<lambda>r. Settled (Some r)) (results v))
     \<and> (\<forall>tk \<in> set (tasks v). \<exists>r. phase tk = Settled (Some r)
           \<and> number r = number_of (numberObj tk)
           \<and> length (checks tk) \<le> retryLimit
           \<and> (list_all rejected (checks tk) \<longrightarrow> status r = ''error'')
           \<and> (status r = ''error'' \<or> status r = ''success''))"
proof -
  let ?v0 = "validateBatch_optimized sessions perSession retryLimit numbers"
  have i: "inv numbers sessions v"
    by (rule inv_run [OF inv_validateBatch r])
  from run_maxRetries [OF r] have mr: "maxRetries v = retryLimit"
    and "length (workers v) = length sessions"
    by (simp_all add: validateBatch_optimized_def)
  with s have w: "workers v \<noteq> []" by auto
  from i have b: "items_kept numbers v" and k: "results_kept v" and g: "drained v"
    by (simp_all add: inv_def)
  from w have "hd (workers v) \<in> set (workers v)" by simp
  with c have "\<exists>x \<in> set (workers v). exited x"
    by (auto simp add: completed_def list_all_iff exited_def)
  with g have q: "workQueue v = []" by (simp add: drained_def)
  have all: "\<exists>r. phase tk = Settled (Some r) \<and> task_ok retryLimit tk" if "tk \<in> set (tasks v)" for tk
    using completed_all_settled [OF i c w that] by (simp add: mr)
  have per_task: "\<exists>r. phase tk = Settled (Some r)
           \<and> number r = number_of (numberObj tk)
           \<and> length (checks tk) \<le> retryLimit
           \<and> (list_all rejected (checks tk) \<longrightarrow> status r = ''error'')
           \<and> (status r = ''error'' \<or> status r = ''success'')" if "tk \<in> set (tasks v)" for tk
  proof -
    from all [OF that] obtain r' where p: "phase tk = Settled (Some r')" and ok: "task_ok retryLimit tk"
      by blast
    from ok p have n: "number r' = number_of (numberObj tk)" and l: "length (checks tk) \<le> retryLimit"
      and st: "status r' = ''error'' \<and> list_all rejected (checks tk)
              \<or> status r' = ''success'' \<and> checks tk \<noteq> []
                  \<and> last (checks tk) = Resolves (is_registered r')"
      by (simp_all add: task_ok_def)
    have "status r' = ''error''" if rej: "list_all rejected (checks tk)"
    proof (rule ccontr)
      assume "status r' \<noteq> ''error''"
      with st have ne: "checks tk \<noteq> []" and la: "last (checks tk) = Resolves (is_registered r')"
        by simp_all
      from ne have "last (checks tk) \<in> set (checks tk)" by simp
      with rej have "rejected (last (checks tk))" by (simp add: list_all_iff)
      with la show False by simp
    qed
    with p n l st show ?thesis by auto
  qed
  have settled: "\<forall>tk \<in> set (tasks v). \<exists>r. phase tk = Settled (Some r) \<and> number r = number_of (numberObj tk)"
    using per_task by blast
  note cs = committed_all_settled [OF settled]
  have items: "mset (map numberObj (tasks v)) = mset (filter truthy numbers)"
    using b q by (simp add: items_kept_def)
  have "mset (map phase (tasks v)) = image_mset (\<lambda>r. Settled (Some r)) (mset (committed (tasks v)))"
    by (simp add: cs(1))
  also have "\<dots> = image_mset (\<lambda>r. Settled (Some r)) (mset (results v))"
    using k by (simp add: results_kept_def)
  finally have phases: "mset (map phase (tasks v)) = mset (map (\<lambda>r. Settled (Some r)) (results v))"
    by simp
  have "mset (map number (results v)) = image_mset number (mset (committed (tasks v)))"
    using k by (simp add: results_kept_def)
  also have "\<dots> = mset (map (\<lambda>tk. number_of (numberObj tk)) (tasks v))"
    by (simp flip: cs(2))
  also have "\<dots> = image_mset number_of (mset (map numberObj (tasks v)))"
    by (simp add: image_mset.compositionality comp_def)
  also have "\<dots> = mset (map number_of (filter truthy numbers))"
  proof -
    have "image_mset numberObj (mset (tasks v)) = mset (filter truthy numbers)"
      using items by simp
    then show ?thesis by (simp only: mset_map)
  qed
  finally have nums: "mset (map number (results v)) = mset (map number_of (filter truthy numbers))" .
  show ?thesis
    using nums items phases per_task by blast
qed

text \<open>
  C10. With \<^verbatim>\<open>maxRetries = 0\<close> a call of \<^verbatim>\<open>processNumber\<close> only settles its promise with
  \<^verbatim>\<open>undefined\<close>: no check, no result, no counter, and its argument stays in
  \<^verbatim>\<open>processing\<close>. So in every state that a run reaches from a list with a truthy entry
  no worker has left its loop, \<^verbatim>\<open>validateBatch\<close> has not completed, and no result or
  count has been recorded.
\<close>

theorem maxRetries_zero_never_completes:
  assumes r: "run (validateBatch_optimized sessions perSession 0 numbers) es = Some v"
    and x: "\<exists>x \<in> set numbers. truthy x"
  shows "(\<forall>w \<in> set (workers v). pc w \<noteq> FinalWait \<and> pc w \<noteq> Returned)
     \<and> (sessions \<noteq> [] \<longrightarrow> \<not> completed v)
     \<and> results v = [] \<and> stats_processed v = 0 \<and> stats_verified v = 0 \<and> stats_errors v = 0
     \<and> whatsappSessions v = sessions
     \<and> (\<forall>tk \<in> set (tasks v). phase tk = Settled None \<and> checks tk = []
           \<and> numberObj tk \<in> set (processing v))
     \<and> processNumber s num (u\<lparr>maxRetries := 0\<rparr>)
         = u\<lparr>maxRetries := 0,
             tasks := tasks u @ [\<lparr>owner = s, numberObj = num, retries = 0, phase = Settled None,
                                  checks = []\<rparr>]\<rparr>
     \<and> options_maxRetries (Some 0) = 0"
proof -
  have i: "inv numbers sessions v"
    by (rule inv_run [OF inv_validateBatch r])
  from run_maxRetries [OF r] have z: "maxRetries v = 0"
    and len: "length (workers v) = length sessions"
    by (simp_all add: validateBatch_optimized_def)
  from i have b: "items_kept numbers v" and g: "drained v" and h: "stuck sessions v"
    by (simp_all add: inv_def)
  from h z have tasks: "\<forall>tk \<in> set (tasks v). numberObj tk \<in> set (processing v)
          \<and> phase tk = Settled None \<and> checks tk = []"
    and ex: "(\<exists>w \<in> set (workers v). exited w) \<longrightarrow> tasks v = []"
    and rest: "results v = []" "stats_processed v = 0" "stats_verified v = 0" "stats_errors v = 0"
      "whatsappSessions v = sessions"
    by (simp_all add: stuck_def)
  have no_exit: "\<not> exited w" if "w \<in> set (workers v)" for w
  proof
    assume "exited w"
    with that have e: "\<exists>w \<in> set (workers v). exited w" by blast
    with g ex have "workQueue v = []" "tasks v = []" by (simp_all add: drained_def)
    with b have "filter truthy numbers = []" by (simp add: items_kept_def)
    with x show False by (auto simp add: filter_empty_conv)
  qed
  then have loops: "\<forall>w \<in> set (workers v). pc w \<noteq> FinalWait \<and> pc w \<noteq> Returned"
    by (auto simp add: exited_def)
  have nc: "\<not> completed v" if "sessions \<noteq> []"
  proof
    assume c: "completed v"
    from that len have "workers v \<noteq> []" by auto
    then have "hd (workers v) \<in> set (workers v)" by simp
    with c loops show False by (auto simp add: completed_def list_all_iff)
  qed
  have pn: "processNumber s num (u\<lparr>maxRetries := 0\<rparr>)
         = u\<lparr>maxRetries := 0,
             tasks := tasks u @ [\<lparr>owner = s, numberObj = num, retries = 0, phase = Settled None,
                                  checks = []\<rparr>]\<rparr>"
    by (simp add: processNumber_zero)
  have om: "options_maxRetries (Some 0) = 0"
    by (simp add: options_maxRetries_def)
  show ?thesis
    using loops nc rest tasks pn om by blast
qed

theorem validateBatch_one_result_per_item_witness:
  "[newSession 0 0] \<noteq> []
   \<and> (\<exists>v. run (validateBatch_optimized [newSession 0 0] 10 2
                 [Str ''0791234567'', Str '''', Obj 7 ''0781234567''])
              [Worker 0, CheckSettles 0 (Rejects ''timeout''), CheckSettles 1 (Resolves True),
               DelayFires 0, Worker 0, Worker 0, Worker 0, Worker 0,
               CheckSettles 0 (Rejects ''timeout''), Worker 0, Worker 0] = Some v
         \<and> completed v
         \<and> mset (map number (results v))
             = mset (map number_of (filter truthy [Str ''0791234567'', Str '''', Obj 7 ''0781234567''])))"
proof -
  let ?run = "run (validateBatch_optimized [newSession 0 0] 10 2
                 [Str ''0791234567'', Str '''', Obj 7 ''0781234567''])
              [Worker 0, CheckSettles 0 (Rejects ''timeout''), CheckSettles 1 (Resolves True),
               DelayFires 0, Worker 0, Worker 0, Worker 0, Worker 0,
               CheckSettles 0 (Rejects ''timeout''), Worker 0, Worker 0]"
  have "case ?run of None \<Rightarrow> False | Some v \<Rightarrow> completed v"
    by code_simp
  then obtain v where r: "?run = Some v" and c: "completed v"
    by (cases ?run) simp_all
  have s: "[newSession 0 0] \<noteq> []" by simp
  from validateBatch_one_result_per_item [OF r c s] r c s show ?thesis by blast
qed

theorem maxRetries_zero_never_completes_witness:
  "(\<exists>x \<in> set [Str ''0791234567'']. truthy x)
   \<and> (\<exists>v. run (validateBatch_optimized [newSession 0 0] 10 0 [Str ''0791234567''])
              [Worker 0, Worker 0, Worker 0, Worker 0] = Some v
         \<and> \<not> completed v \<and> results v = [] \<and> stats_processed v = 0)"
proof -
  let ?run = "run (validateBatch_optimized [newSession 0 0] 10 0 [Str ''0791234567''])
              [Worker 0, Worker 0, Worker 0, Worker 0]"
  have "?run \<noteq> None" by code_simp
  then obtain v where r: "?run = Some v" by blast
  have x: "\<exists>x \<in> set [Str ''0791234567'']. truthy x" by simp
  from maxRetries_zero_never_completes [OF r x] r x show ?thesis by auto
qed

end
